theory Spec2Isabelle
  imports Complex_Main
begin

section \<open>JavaScript values read by the dashboard\<close>

text \<open>
  The functions of \<^verbatim>\<open>static/js/dashboard.js\<close> verified here are the stage aggregation of
  class \<^verbatim>\<open>AirportDashboard\<close> (\<^verbatim>\<open>getStageForPosition\<close>, \<^verbatim>\<open>calculateStageCounts\<close>,
  \<^verbatim>\<open>getStageFlowState\<close>, \<^verbatim>\<open>getDominantStage\<close>, \<^verbatim>\<open>aggregateStageCounts\<close>) and the alert
  filter \<^verbatim>\<open>filterAlertsByScope\<close>. Class \<^verbatim>\<open>StaffPortal\<close> repeats the first four.

  A Number is a finite value, an infinity or NaN. The code only compares the numbers it
  reads, and comparison of finite doubles agrees with comparison of the reals they denote,
  so a finite Number is a real here; \<open>+0\<close> and \<open>-0\<close>, which no comparison separates, are
  both \<open>Fin 0\<close>.
\<close>

datatype jsnum = Fin real | PosInf | NegInf | NaN

text \<open>The operators \<^verbatim>\<open><\<close> and \<^verbatim>\<open>>=\<close> on Numbers: every comparison with NaN is false.\<close>

fun js_lt :: "jsnum \<Rightarrow> jsnum \<Rightarrow> bool" where
  "js_lt (Fin a) (Fin b) = (a < b)"
| "js_lt (Fin a) PosInf = True"
| "js_lt NegInf (Fin b) = True"
| "js_lt NegInf PosInf = True"
| "js_lt _ _ = False"

fun js_ge :: "jsnum \<Rightarrow> jsnum \<Rightarrow> bool" where
  "js_ge NaN _ = False"
| "js_ge _ NaN = False"
| "js_ge a b = (\<not> js_lt a b)"

text \<open>
  The data the dashboard polls is what \<^verbatim>\<open>response.json()\<close> yields: null, booleans,
  Numbers, strings, arrays and objects; \<open>JUndefined\<close> is what reading a missing property
  gives. An object is the list of its own properties (the first binding of a key counts).
\<close>

datatype jsval =
    JUndefined
  | JNull
  | JBool bool
  | JNum jsnum
  | JStr string
  | JArr "jsval list"
  | JObj "(string \<times> jsval) list"

datatype error = TypeError

text \<open>Truthiness, as \<^verbatim>\<open>!x\<close>, \<^verbatim>\<open>x && y\<close> and \<^verbatim>\<open>x ? y : z\<close> test it.\<close>

fun truthy :: "jsval \<Rightarrow> bool" where
  "truthy JUndefined = False"
| "truthy JNull = False"
| "truthy (JBool b) = b"
| "truthy (JNum n) = (n \<noteq> Fin 0 \<and> n \<noteq> NaN)"
| "truthy (JStr s) = (s \<noteq> [])"
| "truthy (JArr xs) = True"
| "truthy (JObj ps) = True"

text \<open>
  Property access \<^verbatim>\<open>v.k\<close>. On \<^verbatim>\<open>null\<close> and \<^verbatim>\<open>undefined\<close> it raises a TypeError; on an
  object it is the own property, or \<^verbatim>\<open>undefined\<close>; on the other values it is \<^verbatim>\<open>undefined\<close>.
  The code reads the keys \<^verbatim>\<open>bags_on_belt\<close>, \<^verbatim>\<open>position\<close> and \<^verbatim>\<open>scope\<close> only, which no
  built-in prototype defines.
\<close>

fun get_prop :: "jsval \<Rightarrow> string \<Rightarrow> error + jsval" where
  "get_prop JUndefined k = Inl TypeError"
| "get_prop JNull k = Inl TypeError"
| "get_prop (JObj ps) k = Inr (case map_of ps k of Some v \<Rightarrow> v | None \<Rightarrow> JUndefined)"
| "get_prop v k = Inr JUndefined"

text \<open>
  \<^verbatim>\<open>ToNumber\<close>, which \<^verbatim>\<open>position >= stage.start\<close> and \<^verbatim>\<open>position < stage.end\<close> apply to
  the position (the stage bounds are Numbers, so the comparison is numeric).

  An object or array is first converted to a primitive value, and that can raise. The
  values are parsed data, so no property of theirs is callable: an object with a property
  \<^verbatim>\<open>toString\<close> of its own has no conversion left (\<^verbatim>\<open>valueOf\<close> gives no primitive value) and
  raises a TypeError, and so does an array holding such an object at any depth, since an
  array converts by joining the strings of its elements. Every other object prints as
  \<^verbatim>\<open>[object Object]\<close>, which reads as NaN.

  \<^verbatim>\<open>undefined\<close> is NaN, \<^verbatim>\<open>null\<close> is 0, \<^verbatim>\<open>false\<close> and \<^verbatim>\<open>true\<close> are 0 and 1, the empty
  string and the empty array are 0. What is left is reading decimal text: the Number of
  a non-empty string, and of the string a non-empty array prints as. That part is the
  parameter \<open>parse\<close>, total as \<^verbatim>\<open>StringToNumber\<close> is, and every theorem below holds for
  every \<open>parse\<close>.
\<close>

fun unconvertible :: "jsval \<Rightarrow> bool" where
  "unconvertible (JObj ps) = (''toString'' \<in> fst ` set ps)"
| "unconvertible (JArr xs) = (\<exists>x\<in>set xs. unconvertible x)"
| "unconvertible v = False"

fun ToNumber :: "(jsval \<Rightarrow> jsnum) \<Rightarrow> jsval \<Rightarrow> error + jsnum" where
  "ToNumber parse JUndefined = Inr NaN"
| "ToNumber parse JNull = Inr (Fin 0)"
| "ToNumber parse (JBool b) = Inr (if b then Fin 1 else Fin 0)"
| "ToNumber parse (JNum n) = Inr n"
| "ToNumber parse (JStr s) = Inr (if s = [] then Fin 0 else parse (JStr s))"
| "ToNumber parse (JObj ps) =
     (if unconvertible (JObj ps) then Inl TypeError else Inr NaN)"
| "ToNumber parse (JArr xs) =
     (if unconvertible (JArr xs) then Inl TypeError
      else Inr (if xs = [] then Fin 0 else parse (JArr xs)))"

text \<open>
  \<^verbatim>\<open>Array.prototype.forEach\<close> with a callback that updates an accumulator and may raise:
  the first exception ends the loop and is the result.
\<close>

fun forEach :: "('s \<Rightarrow> 'a \<Rightarrow> error + 's) \<Rightarrow> 'a list \<Rightarrow> 's \<Rightarrow> error + 's" where
  "forEach f [] s = Inr s"
| "forEach f (x # xs) s = (case f s x of Inl e \<Rightarrow> Inl e | Inr s' \<Rightarrow> forEach f xs s')"

section \<open>Count objects\<close>

text \<open>
  \<^verbatim>\<open>counts\<close> and \<^verbatim>\<open>totals\<close> are ordinary objects created as \<^verbatim>\<open>{}\<close> whose properties hold
  Numbers: the list of the own properties in creation order. The counts are natural
  numbers: they start at 0 and grow by 1 per bag, which is exact in a double below
  \<open>2^53\<close>.

  \<^verbatim>\<open>obj[k] = v\<close> with a Number \<open>v\<close>: an own property is overwritten in place, a new key is
  appended, and the key \<^verbatim>\<open>__proto__\<close>, when not an own property, reaches the setter of
  \<^verbatim>\<open>Object.prototype\<close>, which ignores a Number.
\<close>

type_synonym jsobject = "(string \<times> nat) list"

definition set_prop :: "jsobject \<Rightarrow> string \<Rightarrow> nat \<Rightarrow> jsobject" where
  "set_prop obj k v =
     (if k \<in> fst ` set obj then map (\<lambda>p. if fst p = k then (k, v) else p) obj
      else if k = ''__proto__'' then obj
      else obj @ [(k, v)])"

text \<open>
  An array index is the canonical decimal string of an integer from 0 to \<open>2^32 - 2\<close>.
  \<^verbatim>\<open>Object.entries\<close> lists the own properties whose keys are array indices first, in
  ascending numeric order, then the others in creation order.
\<close>

definition is_digit :: "char \<Rightarrow> bool" where
  "is_digit c = (c \<in> set ''0123456789'')"

definition digit_value :: "char \<Rightarrow> nat" where
  "digit_value c = of_char c - 48"

definition decimal_value :: "string \<Rightarrow> nat" where
  "decimal_value s = foldl (\<lambda>n c. 10 * n + digit_value c) 0 s"

definition array_index :: "string \<Rightarrow> nat option" where
  "array_index s =
     (if s \<noteq> [] \<and> list_all is_digit s \<and> (s = ''0'' \<or> hd s \<noteq> CHR ''0'')
         \<and> decimal_value s \<le> 4294967294
      then Some (decimal_value s) else None)"

definition Object_entries :: "jsobject \<Rightarrow> (string \<times> nat) list" where
  "Object_entries obj =
     sort_key (\<lambda>p. the (array_index (fst p))) (filter (\<lambda>p. array_index (fst p) \<noteq> None) obj)
     @ filter (\<lambda>p. array_index (fst p) = None) obj"

section \<open>The dashboard and its stage table\<close>

record stage =
  stage_id :: string
  stage_label :: string
  stage_description :: string
  stage_icon :: string
  stage_start :: jsnum
  stage_end :: jsnum

record dashboard =
  beltStages :: "stage list"
  alertScopes :: "jsval list"

text \<open>The table the constructor assigns to \<^verbatim>\<open>this.beltStages\<close>.\<close>

definition canonicalStages :: "stage list" where
  "canonicalStages =
     [\<lparr>stage_id = ''checking'', stage_label = ''Check-In & Tagging'',
        stage_description = ''Bags dropped and tagged'',
        stage_icon = ''fas fa-clipboard-check'', stage_start = Fin 0, stage_end = Fin 25\<rparr>,
      \<lparr>stage_id = ''sorting'', stage_label = ''Automated Sorting'',
        stage_description = ''Intelligent diverters align bags'',
        stage_icon = ''fas fa-diagram-project'', stage_start = Fin 25, stage_end = Fin 50\<rparr>,
      \<lparr>stage_id = ''security'', stage_label = ''Security Screening'',
        stage_description = ''Explosive trace & X-ray scanning'',
        stage_icon = ''fas fa-shield-halved'', stage_start = Fin 50, stage_end = Fin 75\<rparr>,
      \<lparr>stage_id = ''boarding'', stage_label = ''Gate Boarding'',
        stage_description = ''Loaded on dollies and trolleys'',
        stage_icon = ''fas fa-plane-departure'', stage_start = Fin 75, stage_end = Fin 100\<rparr>]"

text \<open>
  The constructor, as far as the verified functions read its fields. The argument is the
  value of \<^verbatim>\<open>config.alertScopes\<close> (\<^verbatim>\<open>undefined\<close> when the page sets no configuration):
  a non-empty array is taken as it is, anything else gives \<^verbatim>\<open>['all']\<close>.
\<close>

definition AirportDashboard :: "jsval \<Rightarrow> dashboard" where
  "AirportDashboard configAlertScopes =
     \<lparr>beltStages = canonicalStages,
      alertScopes = (case configAlertScopes of
                       JArr xs \<Rightarrow> if xs \<noteq> [] then xs else [JStr ''all'']
                     | _ \<Rightarrow> [JStr ''all''])\<rparr>"

text \<open>
  \<^verbatim>\<open>getBeltStages\<close> returns \<^verbatim>\<open>this.beltStages || []\<close>; the field holds an array, which is
  truthy also when empty.
\<close>

definition getBeltStages :: "dashboard \<Rightarrow> stage list" where
  "getBeltStages this = beltStages this"

section \<open>Stage aggregation\<close>

text \<open>
  \<^verbatim>\<open>getStageForPosition\<close>: \<open>Inr None\<close> is \<^verbatim>\<open>null\<close>. \<^verbatim>\<open>stages.find\<close> returns the first stage
  the predicate accepts; without one, the id of the last stage is returned. The predicate
  converts the position to a Number at each comparison; a conversion that raises does so
  at the first stage tested, and an empty table returns before any conversion.
\<close>

definition stage_matches :: "jsnum \<Rightarrow> stage \<Rightarrow> bool" where
  "stage_matches position stage =
     (js_ge position (stage_start stage) \<and> js_lt position (stage_end stage))"

definition getStageForPosition ::
  "(jsval \<Rightarrow> jsnum) \<Rightarrow> dashboard \<Rightarrow> jsval \<Rightarrow> error + string option" where
  "getStageForPosition parse this position =
     (let stages = getBeltStages this in
      if stages = [] then Inr None
      else (case ToNumber parse position of
              Inl e \<Rightarrow> Inl e
            | Inr n \<Rightarrow>
                (case find (stage_matches n) stages of
                   Some stage \<Rightarrow> Inr (Some (stage_id stage))
                 | None \<Rightarrow> Inr (Some (stage_id (last stages))))))"

text \<open>
  \<^verbatim>\<open>calculateStageCounts\<close>. The zero object is built by \<^verbatim>\<open>reduce\<close> over the stages. For a
  bag, \<^verbatim>\<open>bag.position\<close> raises on a \<^verbatim>\<open>null\<close> or \<^verbatim>\<open>undefined\<close> entry, and the stage lookup
  raises on a position that has no conversion; the counter is incremented when the stage
  id is truthy (a non-empty string) and \<^verbatim>\<open>counts[stageId]\<close> is a Number, that is, an own
  property (what an object inherits is no Number).
\<close>

definition zeroCounts :: "stage list \<Rightarrow> jsobject" where
  "zeroCounts stages = foldl (\<lambda>acc stage. set_prop acc (stage_id stage) 0) [] stages"

definition countBag :: "(jsval \<Rightarrow> jsnum) \<Rightarrow> dashboard \<Rightarrow> jsobject \<Rightarrow> jsval \<Rightarrow> error + jsobject" where
  "countBag parse this counts bag =
     (case get_prop bag ''position'' of
        Inl e \<Rightarrow> Inl e
      | Inr position \<Rightarrow>
          (case getStageForPosition parse this position of
             Inl e \<Rightarrow> Inl e
           | Inr None \<Rightarrow> Inr counts
           | Inr (Some stageId) \<Rightarrow>
               if stageId \<noteq> [] then
                 (case map_of counts stageId of
                    Some n \<Rightarrow> Inr (set_prop counts stageId (n + 1))
                  | None \<Rightarrow> Inr counts)
               else Inr counts))"

definition calculateStageCounts :: "(jsval \<Rightarrow> jsnum) \<Rightarrow> dashboard \<Rightarrow> jsval \<Rightarrow> error + jsobject" where
  "calculateStageCounts parse this belt =
     (let stages = getBeltStages this;
          counts = zeroCounts stages in
      if \<not> truthy belt then Inr counts
      else (case get_prop belt ''bags_on_belt'' of
              Inl e \<Rightarrow> Inl e
            | Inr (JArr bags) \<Rightarrow> forEach (countBag parse this) bags counts
            | Inr _ \<Rightarrow> Inr counts))"

text \<open>
  \<^verbatim>\<open>getStageFlowState\<close>: \<^verbatim>\<open>count === 0\<close>, then the two thresholds on \<^verbatim>\<open>loadPercent\<close>.
\<close>

definition getStageFlowState :: "jsnum \<Rightarrow> jsnum \<Rightarrow> string" where
  "getStageFlowState loadPercent count =
     (if count = Fin 0 then ''Idle''
      else if js_ge loadPercent (Fin 60) then ''Congested''
      else if js_ge loadPercent (Fin 30) then ''Flowing''
      else ''Clearing'')"

text \<open>
  \<^verbatim>\<open>getDominantStage\<close>: the argument may be \<^verbatim>\<open>null\<close> or \<^verbatim>\<open>undefined\<close> (\<open>None\<close>), read as
  \<^verbatim>\<open>{}\<close>. The loop runs over all entries, the first included, and replaces the running
  maximum on a strictly greater count only.
\<close>

definition dominantStep :: "string \<times> nat \<Rightarrow> string \<times> nat \<Rightarrow> string \<times> nat" where
  "dominantStep best entry = (if snd entry > snd best then entry else best)"

definition getDominantStage :: "jsobject option \<Rightarrow> string option" where
  "getDominantStage counts =
     (let entries = Object_entries (case counts of None \<Rightarrow> [] | Some c \<Rightarrow> c) in
      case entries of
        [] \<Rightarrow> None
      | first # _ \<Rightarrow> Some (fst (foldl dominantStep first entries)))"

text \<open>
  \<^verbatim>\<open>aggregateStageCounts\<close>. \<^verbatim>\<open>totals[stage.id] += counts[stage.id] || 0\<close> adds the belt's
  count where both objects own the key. Both are built from the same table and have the
  same keys (lemma \<open>calculateStageCounts_bound\<close> below), so the only stage id that is no
  own key is \<^verbatim>\<open>__proto__\<close>, and there the statement hands a string to the prototype
  setter, which changes nothing.
\<close>

definition addCount :: "jsobject \<Rightarrow> jsobject \<Rightarrow> string \<Rightarrow> jsobject" where
  "addCount counts totals k =
     (case (map_of totals k, map_of counts k) of
        (Some t, Some c) \<Rightarrow> set_prop totals k (t + c)
      | _ \<Rightarrow> totals)"

definition addBelt :: "(jsval \<Rightarrow> jsnum) \<Rightarrow> dashboard \<Rightarrow> jsobject \<Rightarrow> jsval \<Rightarrow> error + jsobject" where
  "addBelt parse this totals belt =
     (case calculateStageCounts parse this belt of
        Inl e \<Rightarrow> Inl e
      | Inr counts \<Rightarrow>
          Inr (foldl (\<lambda>acc stage. addCount counts acc (stage_id stage)) totals (getBeltStages this)))"

definition aggregateStageCounts :: "(jsval \<Rightarrow> jsnum) \<Rightarrow> dashboard \<Rightarrow> jsval \<Rightarrow> error + jsobject" where
  "aggregateStageCounts parse this conveyorBelts =
     (let stages = getBeltStages this;
          totals = zeroCounts stages in
      case conveyorBelts of
        JArr belts \<Rightarrow> forEach (addBelt parse this) belts totals
      | _ \<Rightarrow> Inr totals)"

section \<open>Alert scopes\<close>

text \<open>
  \<^verbatim>\<open>this.alertScopes.includes(scope)\<close> compares with SameValueZero: primitive values by
  value (NaN equals NaN), arrays and objects by identity. The alerts are parsed from a
  response and the allowed scopes come from the page configuration, so an array or object
  among the one is never identical to one among the other.
\<close>

fun sameValueZero :: "jsval \<Rightarrow> jsval \<Rightarrow> bool" where
  "sameValueZero (JArr xs) v = False"
| "sameValueZero (JObj ps) v = False"
| "sameValueZero u v = (u = v)"

definition includes_arr :: "jsval list \<Rightarrow> jsval \<Rightarrow> bool" where
  "includes_arr xs v = list_ex (\<lambda>x. sameValueZero x v) xs"

definition keepAlert :: "dashboard \<Rightarrow> jsval \<Rightarrow> error + bool" where
  "keepAlert this alert =
     (case get_prop alert ''scope'' of
        Inl e \<Rightarrow> Inl e
      | Inr (JArr scopes) \<Rightarrow>
          if scopes = [] then Inr True
          else Inr (list_ex (\<lambda>scope. includes_arr (alertScopes this) scope \<or> scope = JStr ''all'') scopes)
      | Inr _ \<Rightarrow> Inr True)"

fun filterArr :: "('a \<Rightarrow> error + bool) \<Rightarrow> 'a list \<Rightarrow> error + 'a list" where
  "filterArr f [] = Inr []"
| "filterArr f (x # xs) =
     (case f x of
        Inl e \<Rightarrow> Inl e
      | Inr keep \<Rightarrow>
          (case filterArr f xs of
             Inl e \<Rightarrow> Inl e
           | Inr ys \<Rightarrow> Inr (if keep then x # ys else ys)))"

definition filterAlertsByScope :: "dashboard \<Rightarrow> jsval \<Rightarrow> error + jsval list" where
  "filterAlertsByScope this alerts =
     (case alerts of
        JArr xs \<Rightarrow> if xs = [] then Inr [] else filterArr (keepAlert this) xs
      | _ \<Rightarrow> Inr [])"

section \<open>Quantities the claims speak of\<close>

text \<open>
  The number of bags on a belt, as \<^verbatim>\<open>generateStageTimelineHTML\<close> computes \<^verbatim>\<open>bagCount\<close>:
  \<^verbatim>\<open>belt && Array.isArray(belt.bags_on_belt) ? belt.bags_on_belt.length : 0\<close>.
\<close>

definition bagCount :: "jsval \<Rightarrow> nat" where
  "bagCount belt =
     (if truthy belt then
        (case get_prop belt ''bags_on_belt'' of Inr (JArr bags) \<Rightarrow> length bags | _ \<Rightarrow> 0)
      else 0)"

text \<open>
  The class the timeline gives a stage:
  \<^verbatim>\<open>dominantStage === stage.id ? 'active' : ''\<close>.
\<close>

definition isActive :: "string option \<Rightarrow> stage \<Rightarrow> string" where
  "isActive dominantStage stage =
     (if dominantStage = Some (stage_id stage) then ''active'' else [])"

text \<open>The sum of the values of a count object, and the count a key holds (0 without it).\<close>

definition sum_counts :: "jsobject \<Rightarrow> nat" where
  "sum_counts counts = sum_list (map snd counts)"

definition count_of :: "jsobject \<Rightarrow> string \<Rightarrow> nat" where
  "count_of counts k = (case map_of counts k of Some c \<Rightarrow> c | None \<Rightarrow> 0)"

text \<open>
  The element-wise sum of two count objects, in the words of the specification: every key
  of the first keeps its place and holds the sum of the two counts.
\<close>

definition elementwise_sum :: "jsobject \<Rightarrow> jsobject \<Rightarrow> jsobject" where
  "elementwise_sum a b = map (\<lambda>p. (fst p, snd p + count_of b (fst p))) a"

text \<open>
  A bag that can be counted: it is not \<^verbatim>\<open>null\<close> or \<^verbatim>\<open>undefined\<close>, and its position converts
  to a Number (every primitive or missing position does). A belt all of whose bags can be
  counted: every belt without a bag list among them.
\<close>

definition countableBag :: "jsval \<Rightarrow> bool" where
  "countableBag bag =
     (case get_prop bag ''position'' of
        Inl e \<Rightarrow> False
      | Inr position \<Rightarrow> \<not> unconvertible position)"

definition countableBelt :: "jsval \<Rightarrow> bool" where
  "countableBelt belt =
     (if truthy belt then
        (case get_prop belt ''bags_on_belt'' of
           Inr (JArr bags) \<Rightarrow> list_all countableBag bags
         | _ \<Rightarrow> True)
      else True)"

text \<open>
  Visibility of an alert in the words of the specification: its \<^verbatim>\<open>scope\<close> is absent, not a
  list or empty, or some element of it is \<^verbatim>\<open>"all"\<close>, or some element of it is among the
  viewer's allowed scopes.
\<close>

definition visibleTo :: "jsval list \<Rightarrow> jsval \<Rightarrow> bool" where
  "visibleTo allowed alert =
     (case get_prop alert ''scope'' of
        Inr (JArr scopes) \<Rightarrow>
          scopes = [] \<or> list_ex (\<lambda>scope. scope = JStr ''all'') scopes
          \<or> list_ex (\<lambda>scope. includes_arr allowed scope) scopes
      | _ \<Rightarrow> True)"

section \<open>Stage lookup\<close>

lemma find_first:
  "i < length xs \<Longrightarrow> P (xs ! i) \<Longrightarrow> (\<forall>j<i. \<not> P (xs ! j)) \<Longrightarrow> find P xs = Some (xs ! i)"
proof (induction xs arbitrary: i)
  case Nil
  then show ?case by simp
next
  case (Cons x xs)
  show ?case
  proof (cases i)
    case 0
    with Cons.prems show ?thesis by simp
  next
    case (Suc k)
    from Cons.prems Suc have nx: "\<not> P x" by auto
    from Cons.prems Suc have "k < length xs" "P (xs ! k)" "\<forall>j<k. \<not> P (xs ! j)" by auto
    from Cons.IH[OF this] nx Suc show ?thesis by simp
  qed
qed

lemma getStageForPosition_first:
  assumes "ToNumber parse p = Inr n"
    and "i < length (getBeltStages this)"
    and "stage_matches n (getBeltStages this ! i)"
    and "\<forall>j<i. \<not> stage_matches n (getBeltStages this ! j)"
  shows "getStageForPosition parse this p = Inr (Some (stage_id (getBeltStages this ! i)))"
proof -
  from assms(2) have ne: "getBeltStages this \<noteq> []" by auto
  from find_first[OF assms(2,3,4)] ne assms(1) show ?thesis
    by (simp add: getStageForPosition_def)
qed

lemma getStageForPosition_fallback:
  assumes "getBeltStages this \<noteq> []"
    and "ToNumber parse p = Inr n"
    and "\<forall>s\<in>set (getBeltStages this). \<not> stage_matches n s"
  shows "getStageForPosition parse this p = Inr (Some (stage_id (last (getBeltStages this))))"
proof -
  from assms(3) have "find (stage_matches n) (getBeltStages this) = None"
    by (simp add: find_None_iff)
  with assms(1,2) show ?thesis by (simp add: getStageForPosition_def)
qed

lemma getStageForPosition_null:
  "getStageForPosition parse this p = Inr None \<longleftrightarrow> getBeltStages this = []"
  by (simp add: getStageForPosition_def Let_def split: sum.splits option.splits)

lemma ToNumber_raises: "ToNumber parse p = Inl e \<longleftrightarrow> unconvertible p"
  by (cases p; cases e) simp_all

lemma ToNumber_returns: "(\<exists>n. ToNumber parse p = Inr n) \<longleftrightarrow> \<not> unconvertible p"
  by (cases p) simp_all

lemma getStageForPosition_raises:
  assumes "getBeltStages this \<noteq> []" and "unconvertible p"
  shows "getStageForPosition parse this p = Inl TypeError"
proof -
  from assms(2) have "ToNumber parse p = Inl TypeError" by (simp add: ToNumber_raises)
  with assms(1) show ?thesis by (simp add: getStageForPosition_def)
qed

lemma getStageForPosition_total:
  assumes "\<not> unconvertible p"
  shows "\<exists>r. getStageForPosition parse this p = Inr r"
proof -
  from assms obtain n where "ToNumber parse p = Inr n"
    using ToNumber_returns by blast
  then show ?thesis
    by (simp add: getStageForPosition_def Let_def split: option.splits)
qed

lemma getBeltStages_AirportDashboard [simp]:
  "getBeltStages (AirportDashboard cfg) = canonicalStages"
  by (simp add: getBeltStages_def AirportDashboard_def)

lemma canonical_coerced:
  assumes "ToNumber parse p = Inr (Fin x)"
  shows "getStageForPosition parse (AirportDashboard cfg) p =
     Inr (Some (if 0 \<le> x \<and> x < 25 then ''checking''
                else if 25 \<le> x \<and> x < 50 then ''sorting''
                else if 50 \<le> x \<and> x < 75 then ''security''
                else ''boarding''))"
  using assms by (simp add: getStageForPosition_def canonicalStages_def stage_matches_def)

lemma canonical_num:
  "getStageForPosition parse (AirportDashboard cfg) (JNum (Fin x)) =
     Inr (Some (if 0 \<le> x \<and> x < 25 then ''checking''
                else if 25 \<le> x \<and> x < 50 then ''sorting''
                else if 50 \<le> x \<and> x < 75 then ''security''
                else ''boarding''))"
  by (rule canonical_coerced) simp

lemma canonical_nomatch:
  assumes "ToNumber parse p = Inr n"
    and "n = NaN \<or> js_lt n (Fin 0) \<or> js_ge n (Fin 100)"
  shows "getStageForPosition parse (AirportDashboard cfg) p = Inr (Some ''boarding'')"
proof (cases n)
  case (Fin x)
  with assms(2) have "x < 0 \<or> 100 \<le> x" by auto
  with Fin assms(1) show ?thesis
    by (auto simp add: canonical_coerced)
qed (simp_all add: assms(1) getStageForPosition_def canonicalStages_def stage_matches_def)

text \<open>
  Claim C1, as amended. For a dashboard with any stage table and any position \<open>p\<close> that
  converts to a Number \<open>n\<close>:
  \<^item> the result is the id of the first stage with \<open>start \<le> n < end\<close> (the stage at the
    least index \<open>i\<close> where the test holds);
  \<^item> when the table is not empty and no stage passes the test, the result is the id of
    the last stage.
  A position converts unless it is an object with a \<^verbatim>\<open>toString\<close> property of its own, or an
  array holding one; on such a position the call raises a TypeError when the table is not
  empty. The result is \<^verbatim>\<open>null\<close> exactly when the table is empty.

  With the table of the constructor, a Number in \<open>[0, 100]\<close> gets the id of a stage of
  the table, 100 gets \<^verbatim>\<open>boarding\<close>, and so does every position that converts to NaN (a
  missing position among them), to a Number below 0, or to one from 100 up. The positions
  \<^verbatim>\<open>null\<close>, \<^verbatim>\<open>false\<close>, \<^verbatim>\<open>true\<close>, \<^verbatim>\<open>""\<close> and \<^verbatim>\<open>[]\<close> are no Numbers but convert to 0 or 1, and get
  \<^verbatim>\<open>checking\<close>, the first stage.
\<close>

theorem getStageForPosition_contract:
  "(\<forall>i < length (getBeltStages this).
      ToNumber parse p = Inr n
      \<and> stage_matches n (getBeltStages this ! i)
      \<and> (\<forall>j<i. \<not> stage_matches n (getBeltStages this ! j))
      \<longrightarrow> getStageForPosition parse this p = Inr (Some (stage_id (getBeltStages this ! i))))
   \<and> (getBeltStages this \<noteq> [] \<and> ToNumber parse p = Inr n
        \<and> (\<forall>s\<in>set (getBeltStages this). \<not> stage_matches n s)
      \<longrightarrow> getStageForPosition parse this p = Inr (Some (stage_id (last (getBeltStages this)))))
   \<and> ((\<exists>m. ToNumber parse p = Inr m) \<longleftrightarrow> \<not> unconvertible p)
   \<and> (getBeltStages this \<noteq> [] \<and> unconvertible p
      \<longrightarrow> getStageForPosition parse this p = Inl TypeError)
   \<and> (getStageForPosition parse this p = Inr None \<longleftrightarrow> getBeltStages this = [])
   \<and> (\<forall>x. 0 \<le> x \<and> x \<le> 100
      \<longrightarrow> (\<exists>s\<in>set canonicalStages.
            getStageForPosition parse (AirportDashboard cfg) (JNum (Fin x))
              = Inr (Some (stage_id s))))
   \<and> getStageForPosition parse (AirportDashboard cfg) (JNum (Fin 100)) = Inr (Some ''boarding'')
   \<and> (ToNumber parse p = Inr n \<and> (n = NaN \<or> js_lt n (Fin 0) \<or> js_ge n (Fin 100))
      \<longrightarrow> getStageForPosition parse (AirportDashboard cfg) p = Inr (Some ''boarding''))
   \<and> getStageForPosition parse (AirportDashboard cfg) JUndefined = Inr (Some ''boarding'')
   \<and> getStageForPosition parse (AirportDashboard cfg) JNull = Inr (Some ''checking'')
   \<and> getStageForPosition parse (AirportDashboard cfg) (JBool False) = Inr (Some ''checking'')
   \<and> getStageForPosition parse (AirportDashboard cfg) (JBool True) = Inr (Some ''checking'')
   \<and> getStageForPosition parse (AirportDashboard cfg) (JStr []) = Inr (Some ''checking'')
   \<and> getStageForPosition parse (AirportDashboard cfg) (JArr []) = Inr (Some ''checking'')"
proof (intro conjI allI impI)
  fix i
  assume "i < length (getBeltStages this)"
    and "ToNumber parse p = Inr n
         \<and> stage_matches n (getBeltStages this ! i)
         \<and> (\<forall>j<i. \<not> stage_matches n (getBeltStages this ! j))"
  then show "getStageForPosition parse this p = Inr (Some (stage_id (getBeltStages this ! i)))"
    by (simp add: getStageForPosition_first)
next
  assume "getBeltStages this \<noteq> [] \<and> ToNumber parse p = Inr n
          \<and> (\<forall>s\<in>set (getBeltStages this). \<not> stage_matches n s)"
  then show "getStageForPosition parse this p = Inr (Some (stage_id (last (getBeltStages this))))"
    by (simp add: getStageForPosition_fallback)
next
  show "(\<exists>m. ToNumber parse p = Inr m) \<longleftrightarrow> \<not> unconvertible p"
    by (rule ToNumber_returns)
next
  assume "getBeltStages this \<noteq> [] \<and> unconvertible p"
  then show "getStageForPosition parse this p = Inl TypeError"
    by (simp add: getStageForPosition_raises)
next
  show "getStageForPosition parse this p = Inr None \<longleftrightarrow> getBeltStages this = []"
    by (rule getStageForPosition_null)
next
  fix x :: real
  assume "0 \<le> x \<and> x \<le> 100"
  show "\<exists>s\<in>set canonicalStages.
          getStageForPosition parse (AirportDashboard cfg) (JNum (Fin x)) = Inr (Some (stage_id s))"
    unfolding canonical_num by (simp add: canonicalStages_def)
next
  show "getStageForPosition parse (AirportDashboard cfg) (JNum (Fin 100)) = Inr (Some ''boarding'')"
    by (simp add: canonical_num)
next
  assume "ToNumber parse p = Inr n \<and> (n = NaN \<or> js_lt n (Fin 0) \<or> js_ge n (Fin 100))"
  then show "getStageForPosition parse (AirportDashboard cfg) p = Inr (Some ''boarding'')"
    using canonical_nomatch by blast
next
  show "getStageForPosition parse (AirportDashboard cfg) JUndefined = Inr (Some ''boarding'')"
    by (rule canonical_nomatch[where n = NaN]) simp_all
next
  show "getStageForPosition parse (AirportDashboard cfg) JNull = Inr (Some ''checking'')"
    by (simp add: canonical_coerced[where x = 0])
next
  show "getStageForPosition parse (AirportDashboard cfg) (JBool False) = Inr (Some ''checking'')"
    by (simp add: canonical_coerced[where x = 0])
next
  show "getStageForPosition parse (AirportDashboard cfg) (JBool True) = Inr (Some ''checking'')"
    by (simp add: canonical_coerced[where x = 1])
next
  show "getStageForPosition parse (AirportDashboard cfg) (JStr []) = Inr (Some ''checking'')"
    by (simp add: canonical_coerced[where x = 0])
next
  show "getStageForPosition parse (AirportDashboard cfg) (JArr []) = Inr (Some ''checking'')"
    by (simp add: canonical_coerced[where x = 0])
qed

theorem getStageForPosition_contract_witness:
  "getStageForPosition (\<lambda>v. NaN) (AirportDashboard JUndefined) (JNum (Fin 30))
     = Inr (Some ''sorting'')
   \<and> getStageForPosition (\<lambda>v. NaN) (AirportDashboard JUndefined) (JStr ''far'')
     = Inr (Some ''boarding'')
   \<and> getStageForPosition (\<lambda>v. NaN) (AirportDashboard JUndefined)
       (JArr [JObj [(''toString'', JNull)]])
     = Inl TypeError
   \<and> getStageForPosition (\<lambda>v. NaN) (AirportDashboard JUndefined) (JNum (Fin 30)) \<noteq> Inr None
   \<and> (\<exists>s. s \<in> set canonicalStages
        \<and> getStageForPosition (\<lambda>v. NaN) (AirportDashboard JUndefined) (JNum (Fin 30))
            = Inr (Some (stage_id s)))
   \<and> getStageForPosition (\<lambda>v. NaN) (AirportDashboard JUndefined) (JNum PosInf)
     = Inr (Some ''boarding'')"
proof -
  let ?D = "AirportDashboard JUndefined"
  let ?P = "\<lambda>v::jsval. NaN"
  let ?U = "JArr [JObj [(''toString'', JNull)]]"
  note at30 = getStageForPosition_contract [of ?D ?P "JNum (Fin 30)" "Fin 30" JUndefined]
  note atFar = getStageForPosition_contract [of ?D ?P "JStr ''far''" NaN JUndefined]
  note atU = getStageForPosition_contract [of ?D ?P ?U NaN JUndefined]
  note atInf = getStageForPosition_contract [of ?D ?P "JNum PosInf" PosInf JUndefined]
  have len: "1 < length (getBeltStages ?D)"
    by (simp add: canonicalStages_def)
  have hit: "ToNumber ?P (JNum (Fin 30)) = Inr (Fin 30)
             \<and> stage_matches (Fin 30) (getBeltStages ?D ! 1)
             \<and> (\<forall>j<1. \<not> stage_matches (Fin 30) (getBeltStages ?D ! j))"
    by (simp add: canonicalStages_def stage_matches_def)
  have ne: "getBeltStages ?D \<noteq> []"
    by (simp add: canonicalStages_def)
  have miss: "ToNumber ?P (JStr ''far'') = Inr NaN
              \<and> (\<forall>s\<in>set (getBeltStages ?D). \<not> stage_matches NaN s)"
    by (simp add: canonicalStages_def stage_matches_def)
  have bad: "unconvertible ?U"
    by simp
  have range: "(0::real) \<le> 30 \<and> (30::real) \<le> 100"
    by simp
  have inf: "ToNumber ?P (JNum PosInf) = Inr PosInf
             \<and> (PosInf = NaN \<or> js_lt PosInf (Fin 0) \<or> js_ge PosInf (Fin 100))"
    by simp
  from at30 len hit
  have "getStageForPosition ?P ?D (JNum (Fin 30)) = Inr (Some (stage_id (getBeltStages ?D ! 1)))"
    by blast
  then have a: "getStageForPosition ?P ?D (JNum (Fin 30)) = Inr (Some ''sorting'')"
    by (simp add: canonicalStages_def)
  from atFar ne miss
  have "getStageForPosition ?P ?D (JStr ''far'')
          = Inr (Some (stage_id (last (getBeltStages ?D))))"
    by blast
  then have b: "getStageForPosition ?P ?D (JStr ''far'') = Inr (Some ''boarding'')"
    by (simp add: canonicalStages_def)
  from atU ne bad have c: "getStageForPosition ?P ?D ?U = Inl TypeError"
    by blast
  from at30 ne have d: "getStageForPosition ?P ?D (JNum (Fin 30)) \<noteq> Inr None"
    by blast
  from at30 range
  have e: "\<exists>s. s \<in> set canonicalStages
             \<and> getStageForPosition ?P ?D (JNum (Fin 30)) = Inr (Some (stage_id s))"
    by blast
  from atInf inf have f: "getStageForPosition ?P ?D (JNum PosInf) = Inr (Some ''boarding'')"
    by blast
  from a b c d e f show ?thesis by blast
qed

theorem getStageForPosition_non_numeric_positions:
  "getStageForPosition (\<lambda>v. NaN) (AirportDashboard JUndefined) JNull = Inr (Some ''checking'')
   \<and> getStageForPosition (\<lambda>v. NaN) (AirportDashboard JUndefined) (JBool True)
     = Inr (Some ''checking'')
   \<and> getStageForPosition (\<lambda>v. NaN) (AirportDashboard JUndefined)
       (JObj [(''toString'', JNum (Fin 0))])
     = Inl TypeError"
  by (simp add: canonical_coerced[where x = 0] canonical_coerced[where x = 1]
      getStageForPosition_raises canonicalStages_def)

text \<open>
  Claim C3, as amended. With the table of the constructor, the position \<open>-5\<close> passes the
  test of no stage and gets the id of the last stage, \<^verbatim>\<open>boarding\<close>, not \<^verbatim>\<open>checking\<close>.
\<close>

theorem getStageForPosition_negative_is_last:
  "getStageForPosition parse (AirportDashboard cfg) (JNum (Fin (- 5))) = Inr (Some ''boarding'')"
  by (simp add: canonical_num)

theorem getStageForPosition_negative_not_first:
  "getStageForPosition (\<lambda>v. NaN) (AirportDashboard JUndefined) (JNum (Fin (- 5)))
     \<noteq> Inr (Some ''checking'')"
  by (simp add: canonical_num)

section \<open>Flow state\<close>

text \<open>
  Claim C7. \<^verbatim>\<open>getStageFlowState\<close> is the ordered table: a count of 0 gives \<^verbatim>\<open>Idle\<close>;
  otherwise a load of at least 60 gives \<^verbatim>\<open>Congested\<close>; otherwise a load of at least 30
  gives \<^verbatim>\<open>Flowing\<close>; otherwise \<^verbatim>\<open>Clearing\<close> (a load that is NaN passes no threshold). The
  four sample rows are instances. The result is a function of the two arguments alone.
\<close>

theorem getStageFlowState_table:
  "getStageFlowState (Fin l) (Fin c) =
     (if c = 0 then ''Idle''
      else if 60 \<le> l then ''Congested''
      else if 30 \<le> l then ''Flowing''
      else ''Clearing'')
   \<and> getStageFlowState l' (Fin 0) = ''Idle''
   \<and> getStageFlowState NaN (Fin 5) = ''Clearing''
   \<and> getStageFlowState (Fin 0) (Fin 0) = ''Idle''
   \<and> getStageFlowState (Fin 65) (Fin 5) = ''Congested''
   \<and> getStageFlowState (Fin 45) (Fin 5) = ''Flowing''
   \<and> getStageFlowState (Fin 10) (Fin 5) = ''Clearing''"
  by (simp add: getStageFlowState_def)

section \<open>Dominant stage\<close>

lemma foldl_dominantStep:
  "\<exists>i<length (b # xs). foldl dominantStep b xs = (b # xs) ! i
      \<and> (\<forall>j<i. snd ((b # xs) ! j) < snd ((b # xs) ! i))
      \<and> (\<forall>x\<in>set (b # xs). snd x \<le> snd ((b # xs) ! i))"
proof (induction xs rule: rev_induct)
  case Nil
  show ?case by simp
next
  case (snoc y ys)
  then obtain i where i: "i < length (b # ys)"
    and r: "foldl dominantStep b ys = (b # ys) ! i"
    and before: "\<forall>j<i. snd ((b # ys) ! j) < snd ((b # ys) ! i)"
    and all: "\<forall>x\<in>set (b # ys). snd x \<le> snd ((b # ys) ! i)"
    by blast
  let ?zs = "b # ys @ [y]"
  have pre: "\<And>j. j < length (b # ys) \<Longrightarrow> ?zs ! j = (b # ys) ! j"
    by (metis append_Cons nth_append)
  have lst: "?zs ! length (b # ys) = y"
    by (metis append_Cons nth_append_length)
  show ?case
  proof (cases "snd y > snd ((b # ys) ! i)")
    case True
    have res: "foldl dominantStep b (ys @ [y]) = ?zs ! length (b # ys)"
      using True r lst by (simp add: dominantStep_def)
    have "\<forall>j<length (b # ys). snd (?zs ! j) < snd y"
    proof (intro allI impI)
      fix j assume j: "j < length (b # ys)"
      then have "(b # ys) ! j \<in> set (b # ys)" by (rule nth_mem)
      with all True have "snd ((b # ys) ! j) < snd y" by fastforce
      with pre[OF j] show "snd (?zs ! j) < snd y" by simp
    qed
    moreover have "\<forall>x\<in>set ?zs. snd x \<le> snd y"
      using all True by fastforce
    ultimately show ?thesis
      using res lst by (intro exI[of _ "length (b # ys)"]) simp
  next
    case False
    have res: "foldl dominantStep b (ys @ [y]) = ?zs ! i"
      using False r pre[OF i] by (simp add: dominantStep_def)
    have "\<forall>j<i. snd (?zs ! j) < snd (?zs ! i)"
    proof (intro allI impI)
      fix j assume "j < i"
      with i before pre[of j] pre[OF i] show "snd (?zs ! j) < snd (?zs ! i)" by simp
    qed
    moreover have "\<forall>x\<in>set ?zs. snd x \<le> snd (?zs ! i)"
      using all False pre[OF i] by fastforce
    ultimately show ?thesis
      using res i by (intro exI[of _ i]) simp
  qed
qed

lemma dominantStep_idem: "dominantStep b b = b"
  by (simp add: dominantStep_def)

lemma getDominantStage_entries:
  assumes "Object_entries counts = e # es"
  shows "\<exists>i<length (e # es). getDominantStage (Some counts) = Some (fst ((e # es) ! i))
      \<and> (\<forall>j<i. snd ((e # es) ! j) < snd ((e # es) ! i))
      \<and> (\<forall>x\<in>set (e # es). snd x \<le> snd ((e # es) ! i))"
proof -
  have "getDominantStage (Some counts) = Some (fst (foldl dominantStep e es))"
    using assms by (simp add: getDominantStage_def dominantStep_idem)
  with foldl_dominantStep[of e es] show ?thesis by auto
qed

lemma set_Object_entries: "set (Object_entries obj) = set obj"
  by (auto simp add: Object_entries_def)

lemma Object_entries_Nil: "Object_entries obj = [] \<longleftrightarrow> obj = []"
proof -
  have "Object_entries obj = [] \<longleftrightarrow> set (Object_entries obj) = {}" by simp
  also have "\<dots> \<longleftrightarrow> obj = []" by (simp add: set_Object_entries)
  finally show ?thesis .
qed

lemma array_index_canonical:
  "array_index ''checking'' = None" 
  "array_index ''sorting'' = None" 
  "array_index ''security'' = None" 
  "array_index ''boarding'' = None"
  by (simp_all add: array_index_def is_digit_def)

text \<open>
  Claim C5. For a count object that is not empty, \<^verbatim>\<open>getDominantStage\<close> returns the key of
  an entry holding the maximum count, and among the entries in the order of
  \<^verbatim>\<open>Object.entries\<close> it is the first with that count: every earlier entry has a strictly
  smaller count. On \<^verbatim>\<open>{checking: 3, sorting: 3, security: 1, boarding: 0}\<close> it returns
  \<^verbatim>\<open>checking\<close>. It returns \<^verbatim>\<open>null\<close> exactly when the object is empty (a \<^verbatim>\<open>null\<close> argument
  is read as the empty object).
\<close>

theorem getDominantStage_contract:
  "(counts \<noteq> [] \<longrightarrow>
      (\<exists>i<length (Object_entries counts).
          getDominantStage (Some counts) = Some (fst (Object_entries counts ! i))
          \<and> snd (Object_entries counts ! i) = Max (snd ` set counts)
          \<and> (\<forall>j<i. snd (Object_entries counts ! j) < snd (Object_entries counts ! i))))
   \<and> (getDominantStage (Some counts) = None \<longleftrightarrow> counts = [])
   \<and> getDominantStage None = None
   \<and> getDominantStage
        (Some [(''checking'', 3), (''sorting'', 3), (''security'', 1), (''boarding'', 0)])
      = Some ''checking''"
proof (intro conjI impI)
  assume ne: "counts \<noteq> []"
  then obtain e es where ees: "Object_entries counts = e # es"
    by (cases "Object_entries counts") (simp_all add: Object_entries_Nil)
  from getDominantStage_entries[OF ees] obtain i where i: "i < length (e # es)"
    and res: "getDominantStage (Some counts) = Some (fst ((e # es) ! i))"
    and before: "\<forall>j<i. snd ((e # es) ! j) < snd ((e # es) ! i)"
    and all: "\<forall>x\<in>set (e # es). snd x \<le> snd ((e # es) ! i)"
    by blast
  have seteq: "set (e # es) = set counts"
    using ees set_Object_entries[of counts] by metis
  have "(e # es) ! i \<in> set (e # es)"
    using i by (rule nth_mem)
  then have mem: "(e # es) ! i \<in> set counts"
    unfolding seteq .
  have "Max (snd ` set counts) = snd ((e # es) ! i)"
  proof (rule Max_eqI)
    show "finite (snd ` set counts)" by simp
    show "snd ((e # es) ! i) \<in> snd ` set counts" using mem by (rule imageI)
    fix y assume "y \<in> snd ` set counts"
    then obtain x where "x \<in> set counts" and "y = snd x" by blast
    with all seteq show "y \<le> snd ((e # es) ! i)" by blast
  qed
  with i res before ees
  show "\<exists>i<length (Object_entries counts).
          getDominantStage (Some counts) = Some (fst (Object_entries counts ! i))
          \<and> snd (Object_entries counts ! i) = Max (snd ` set counts)
          \<and> (\<forall>j<i. snd (Object_entries counts ! j) < snd (Object_entries counts ! i))"
    by (intro exI[of _ i]) simp
next
  show "getDominantStage (Some counts) = None \<longleftrightarrow> counts = []"
  proof (cases "Object_entries counts")
    case Nil
    then have "counts = []" by (simp add: Object_entries_Nil)
    with Nil show ?thesis by (simp add: getDominantStage_def)
  next
    case (Cons e es)
    then have "counts \<noteq> []" by (auto simp add: Object_entries_def)
    with Cons show ?thesis by (simp add: getDominantStage_def)
  qed
next
  show "getDominantStage None = None"
    by (simp add: getDominantStage_def Object_entries_def)
next
  show "getDominantStage
          (Some [(''checking'', 3), (''sorting'', 3), (''security'', 1), (''boarding'', 0)])
        = Some ''checking''"
    by (simp add: getDominantStage_def Object_entries_def array_index_canonical
        dominantStep_def)
qed

theorem getDominantStage_contract_witness:
  "(\<exists>i. i < length [(''checking'', 1), (''sorting'', 2), (''security'', 2 :: nat)]
      \<and> getDominantStage (Some [(''checking'', 1), (''sorting'', 2), (''security'', 2)])
          = Some (fst ([(''checking'', 1), (''sorting'', 2), (''security'', 2 :: nat)] ! i))
      \<and> snd ([(''checking'', 1), (''sorting'', 2), (''security'', 2 :: nat)] ! i) = 2
      \<and> (\<forall>j<i. snd ([(''checking'', 1), (''sorting'', 2), (''security'', 2 :: nat)] ! j)
                 < snd ([(''checking'', 1), (''sorting'', 2), (''security'', 2 :: nat)] ! i)))
   \<and> getDominantStage (Some [(''checking'', 1), (''sorting'', 2), (''security'', 2)]) \<noteq> None"
proof -
  let ?C = "[(''checking'', 1), (''sorting'', 2), (''security'', 2 :: nat)]"
  note contract = getDominantStage_contract [of ?C]
  have ne: "?C \<noteq> []" by simp
  have entries: "Object_entries ?C = ?C"
    by (simp add: Object_entries_def array_index_canonical)
  have mx: "Max (snd ` set ?C) = 2" by simp
  from contract
  have "?C \<noteq> [] \<longrightarrow>
        (\<exists>i<length (Object_entries ?C).
          getDominantStage (Some ?C) = Some (fst (Object_entries ?C ! i))
          \<and> snd (Object_entries ?C ! i) = Max (snd ` set ?C)
          \<and> (\<forall>j<i. snd (Object_entries ?C ! j) < snd (Object_entries ?C ! i)))"
    by (rule conjunct1)
  from this ne
  have "\<exists>i<length (Object_entries ?C).
          getDominantStage (Some ?C) = Some (fst (Object_entries ?C ! i))
          \<and> snd (Object_entries ?C ! i) = Max (snd ` set ?C)
          \<and> (\<forall>j<i. snd (Object_entries ?C ! j) < snd (Object_entries ?C ! i))"
    by (rule mp)
  then have a: "\<exists>i. i < length ?C
                  \<and> getDominantStage (Some ?C) = Some (fst (?C ! i)) \<and> snd (?C ! i) = 2
                  \<and> (\<forall>j<i. snd (?C ! j) < snd (?C ! i))"
    unfolding entries mx .
  from contract have "(getDominantStage (Some ?C) = None) = (?C = [])"
    by (rule conjunct1[OF conjunct2])
  with ne have b: "getDominantStage (Some ?C) \<noteq> None"
    by simp
  from a b show ?thesis by (rule conjI)
qed

section \<open>Properties of count objects\<close>

lemma map_fst_set_prop_own:
  "k \<in> fst ` set obj \<Longrightarrow> map fst (set_prop obj k v) = map fst obj"
  by (induction obj) (auto simp add: set_prop_def)

lemma map_fst_set_prop:
  "map fst (set_prop obj k v) =
     (if k \<in> fst ` set obj \<or> k = ''__proto__'' then map fst obj else map fst obj @ [k])"
proof (cases "k \<in> fst ` set obj")
  case True
  then show ?thesis by (simp add: map_fst_set_prop_own)
next
  case False
  then show ?thesis by (simp add: set_prop_def)
qed

lemma distinct_set_prop:
  "distinct (map fst obj) \<Longrightarrow> distinct (map fst (set_prop obj k v))"
  by (auto simp add: map_fst_set_prop)

lemma map_of_update_own:
  "map_of (map (\<lambda>p. if fst p = k then (k, v) else p) obj) k' =
     (if k' = k \<and> k \<in> fst ` set obj then Some v else map_of obj k')"
proof (induction obj)
  case Nil
  show ?case by simp
next
  case (Cons p ps)
  show ?case
  proof (cases "fst p = k")
    case True
    with Cons show ?thesis by (cases p) auto
  next
    case False
    then have mem: "k \<in> fst ` set (p # ps) \<longleftrightarrow> k \<in> fst ` set ps" by auto
    have "map_of (map (\<lambda>p. if fst p = k then (k, v) else p) (p # ps)) k' =
            (if k' = fst p then Some (snd p)
             else map_of (map (\<lambda>p. if fst p = k then (k, v) else p) ps) k')"
      using False by (cases p) simp
    also have "\<dots> = (if k' = fst p then Some (snd p)
                       else if k' = k \<and> k \<in> fst ` set ps then Some v else map_of ps k')"
      unfolding Cons.IH ..
    also have "\<dots> = (if k' = k \<and> k \<in> fst ` set ps then Some v else map_of (p # ps) k')"
      using False by (cases p) auto
    finally show ?thesis unfolding mem .
  qed
qed

lemma map_of_set_prop:
  "map_of (set_prop obj k v) k' =
     (if k' = k \<and> (k \<in> fst ` set obj \<or> k \<noteq> ''__proto__'') then Some v else map_of obj k')"
proof (cases "k \<in> fst ` set obj")
  case True
  then show ?thesis by (simp add: set_prop_def map_of_update_own)
next
  case False
  then have none: "map_of obj k = None" by (simp add: map_of_eq_None_iff)
  show ?thesis
  proof (cases "k = ''__proto__''")
    case True
    with False none show ?thesis by (simp add: set_prop_def)
  next
    case notproto: False
    have "map_of (obj @ [(k, v)]) k' = (if k' = k then Some v else map_of obj k')"
      using none by (cases "map_of obj k'") (auto simp add: map_add_def)
    with False notproto show ?thesis by (simp add: set_prop_def)
  qed
qed

lemma sum_set_prop:
  assumes "distinct (map fst obj)" and "map_of obj k = Some n"
  shows "sum_list (map snd (set_prop obj k v)) + n = sum_list (map snd obj) + v"
proof -
  from assms(2) have own: "k \<in> fst ` set obj"
    by (metis domI dom_map_of_conv_image_fst)
  have "sum_list (map snd (map (\<lambda>p. if fst p = k then (k, v) else p) obj)) + n
          = sum_list (map snd obj) + v"
    using assms
  proof (induction obj)
    case Nil
    then show ?case by simp
  next
    case (Cons p ps)
    show ?case
    proof (cases "fst p = k")
      case True
      with Cons.prems have pn: "snd p = n" by (cases p) simp
      from True Cons.prems have "k \<notin> fst ` set ps" by auto
      then have "map (\<lambda>p. if fst p = k then (k, v) else p) ps = ps"
        by (induction ps) auto
      with True pn show ?thesis by simp
    next
      case False
      with Cons.prems have "distinct (map fst ps)" "map_of ps k = Some n" by (auto split: if_splits)
      from Cons.IH[OF this] False show ?thesis by simp
    qed
  qed
  with own show ?thesis by (simp add: set_prop_def)
qed

lemma keys_set_prop:
  "fst ` set (set_prop obj k v) =
     (if k \<in> fst ` set obj \<or> k = ''__proto__'' then fst ` set obj
      else insert k (fst ` set obj))"
proof -
  have "fst ` set (set_prop obj k v) = set (map fst (set_prop obj k v))" by simp
  also have "\<dots> = (if k \<in> fst ` set obj \<or> k = ''__proto__'' then fst ` set obj
                     else insert k (fst ` set obj))"
    unfolding map_fst_set_prop by simp
  finally show ?thesis .
qed

lemma zeroCounts_step_keys:
  "fst ` set (foldl (\<lambda>acc stage. set_prop acc (stage_id stage) 0) acc stages)
     = fst ` set acc \<union> (stage_id ` set stages - {''__proto__''})"
proof (induction stages arbitrary: acc)
  case Nil
  show ?case by simp
next
  case (Cons s ss)
  have "fst ` set (foldl (\<lambda>acc stage. set_prop acc (stage_id stage) 0) acc (s # ss))
          = fst ` set (set_prop acc (stage_id s) 0) \<union> (stage_id ` set ss - {''__proto__''})"
    using Cons[of "set_prop acc (stage_id s) 0"] by simp
  also have "\<dots> = fst ` set acc \<union> (stage_id ` set (s # ss) - {''__proto__''})"
    unfolding keys_set_prop by auto
  finally show ?case .
qed

lemma zeroCounts_keys:
  "fst ` set (zeroCounts stages) = stage_id ` set stages - {''__proto__''}"
  using zeroCounts_step_keys[of "[]" stages] by (simp add: zeroCounts_def)

lemma zeroCounts_step_distinct:
  "distinct (map fst acc) \<Longrightarrow>
   distinct (map fst (foldl (\<lambda>acc stage. set_prop acc (stage_id stage) 0) acc stages))"
  by (induction stages arbitrary: acc) (simp_all add: distinct_set_prop)

lemma zeroCounts_distinct: "distinct (map fst (zeroCounts stages))"
  by (simp add: zeroCounts_def zeroCounts_step_distinct)

lemma set_prop_values:
  "snd ` set (set_prop obj k v) \<subseteq> insert v (snd ` set obj)"
  by (auto simp add: set_prop_def)

lemma zeroCounts_step_zero:
  "(\<forall>p\<in>set acc. snd p = 0) \<Longrightarrow>
   (\<forall>p\<in>set (foldl (\<lambda>acc stage. set_prop acc (stage_id stage) 0) acc stages). snd p = 0)"
proof (induction stages arbitrary: acc)
  case Nil
  then show ?case by simp
next
  case (Cons s ss)
  have "\<forall>p\<in>set (set_prop acc (stage_id s) 0). snd p = 0"
  proof
    fix p assume "p \<in> set (set_prop acc (stage_id s) 0)"
    then have "snd p \<in> snd ` set (set_prop acc (stage_id s) 0)" by (rule imageI)
    with set_prop_values[of acc "stage_id s" 0] have "snd p \<in> insert 0 (snd ` set acc)"
      by blast
    with Cons.prems show "snd p = 0" by auto
  qed
  from Cons.IH[OF this] show ?case by simp
qed

lemma zeroCounts_zero: "p \<in> set (zeroCounts stages) \<Longrightarrow> snd p = 0"
  using zeroCounts_step_zero[of "[]" stages] by (simp add: zeroCounts_def)

lemma zeroCounts_canonical:
  "zeroCounts canonicalStages =
     [(''checking'', 0), (''sorting'', 0), (''security'', 0), (''boarding'', 0)]"
  by (simp add: zeroCounts_def canonicalStages_def set_prop_def)

section \<open>Counting the bags of a belt\<close>

lemma getStageForPosition_in_table:
  assumes "getStageForPosition parse this p = Inr (Some k)"
  shows "k \<in> stage_id ` set (getBeltStages this)"
proof (cases "getBeltStages this = []")
  case True
  with assms show ?thesis by (simp add: getStageForPosition_def)
next
  case False
  with assms obtain n where n: "ToNumber parse p = Inr n"
    by (cases "ToNumber parse p") (simp_all add: getStageForPosition_def)
  show ?thesis
  proof (cases "find (stage_matches n) (getBeltStages this)")
    case None
    with False n assms have "k = stage_id (last (getBeltStages this))"
      by (simp add: getStageForPosition_def)
    with False show ?thesis by simp
  next
    case (Some s)
    then have "s \<in> set (getBeltStages this)"
      by (auto simp add: find_Some_iff)
    moreover from Some False n assms have "k = stage_id s"
      by (simp add: getStageForPosition_def)
    ultimately show ?thesis by simp
  qed
qed

lemma getStageForPosition_returns:
  assumes "getBeltStages this \<noteq> []" and "\<not> unconvertible p"
  shows "\<exists>k. getStageForPosition parse this p = Inr (Some k)"
proof -
  from assms(2) obtain n where "ToNumber parse p = Inr n"
    using ToNumber_returns by blast
  with assms(1) show ?thesis
    by (simp add: getStageForPosition_def Let_def split: option.splits)
qed

lemma sum_counts_set_prop:
  assumes "distinct (map fst obj)" and "map_of obj k = Some n"
  shows "sum_counts (set_prop obj k (n + 1)) = sum_counts obj + 1"
  using sum_set_prop[OF assms, of "n + 1"] by (simp add: sum_counts_def)

lemma own_key: "map_of obj k = Some n \<Longrightarrow> k \<in> fst ` set obj"
  by (metis domI dom_map_of_conv_image_fst)

lemma countBag_cases:
  assumes "countBag parse this counts bag = Inr c'"
  shows "c' = counts \<or> (\<exists>k n. map_of counts k = Some n \<and> c' = set_prop counts k (n + 1))"
  using assms
  by (auto simp add: countBag_def split: sum.splits option.splits if_splits)

lemma countBag_step:
  assumes "countBag parse this counts bag = Inr c'" and "distinct (map fst counts)"
  shows "map fst c' = map fst counts \<and> sum_counts c' \<le> sum_counts counts + 1"
proof -
  from countBag_cases[OF assms(1)] show ?thesis
  proof
    assume "c' = counts"
    then show ?thesis by simp
  next
    assume "\<exists>k n. map_of counts k = Some n \<and> c' = set_prop counts k (n + 1)"
    then obtain k n where kn: "map_of counts k = Some n" and c': "c' = set_prop counts k (n + 1)"
      by blast
    from own_key[OF kn] have "map fst c' = map fst counts"
      unfolding c' by (rule map_fst_set_prop_own)
    moreover from sum_counts_set_prop[OF assms(2) kn] have "sum_counts c' = sum_counts counts + 1"
      unfolding c' .
    ultimately show ?thesis by simp
  qed
qed

lemma countableBag_position:
  assumes "countableBag bag"
  shows "\<exists>position. get_prop bag ''position'' = Inr position \<and> \<not> unconvertible position"
  using assms by (cases "get_prop bag ''position''") (simp_all add: countableBag_def)

lemma countBag_returns:
  assumes "countableBag bag"
  shows "\<exists>c'. countBag parse this counts bag = Inr c'"
proof -
  from countableBag_position[OF assms] obtain position
    where pos: "get_prop bag ''position'' = Inr position" and conv: "\<not> unconvertible position"
    by blast
  from getStageForPosition_total[OF conv, of parse this] obtain r
    where "getStageForPosition parse this position = Inr r" by blast
  with pos show ?thesis
    by (simp add: countBag_def split: option.splits)
qed

lemma countBag_counted:
  assumes bag: "countableBag bag"
    and ne: "getBeltStages this \<noteq> []"
    and ids: "\<forall>s\<in>set (getBeltStages this). stage_id s \<noteq> [] \<and> stage_id s \<in> fst ` set counts"
    and dist: "distinct (map fst counts)"
  shows "\<exists>c'. countBag parse this counts bag = Inr c' \<and> map fst c' = map fst counts
              \<and> sum_counts c' = sum_counts counts + 1"
proof -
  from countableBag_position[OF bag] obtain position
    where pos: "get_prop bag ''position'' = Inr position" and conv: "\<not> unconvertible position"
    by blast
  from getStageForPosition_returns[OF ne conv] obtain k
    where k: "getStageForPosition parse this position = Inr (Some k)" by blast
  from getStageForPosition_in_table[OF k] ids have kne: "k \<noteq> []" and kown: "k \<in> fst ` set counts"
    by auto
  from kown obtain n where n: "map_of counts k = Some n"
    by (metis domD dom_map_of_conv_image_fst)
  have res: "countBag parse this counts bag = Inr (set_prop counts k (n + 1))"
    using pos k kne n by (simp add: countBag_def)
  moreover have "map fst (set_prop counts k (n + 1)) = map fst counts"
    using kown by (rule map_fst_set_prop_own)
  moreover have "sum_counts (set_prop counts k (n + 1)) = sum_counts counts + 1"
    using dist n by (rule sum_counts_set_prop)
  ultimately show ?thesis by simp
qed

lemma forEach_append:
  "forEach f (xs @ ys) s = (case forEach f xs s of Inl e \<Rightarrow> Inl e | Inr s' \<Rightarrow> forEach f ys s')"
  by (induction xs arbitrary: s) (simp_all split: sum.splits)

lemma forEach_bound:
  fixes m :: "'s \<Rightarrow> nat"
  assumes step: "\<And>s x s'. I s \<Longrightarrow> f s x = Inr s' \<Longrightarrow> I s' \<and> m s' \<le> m s + 1"
    and "I s" and "forEach f xs s = Inr s'"
  shows "I s' \<and> m s' \<le> m s + length xs"
  using assms(2,3)
proof (induction xs arbitrary: s)
  case Nil
  then show ?case by simp
next
  case (Cons x xs)
  from Cons.prems(2) obtain s1 where s1: "f s x = Inr s1" and rest: "forEach f xs s1 = Inr s'"
    by (auto split: sum.splits)
  from step[OF Cons.prems(1) s1] have "I s1" and "m s1 \<le> m s + 1" by simp_all
  with Cons.IH[OF \<open>I s1\<close> rest] show ?case by simp
qed

lemma forEach_exact:
  fixes m :: "'s \<Rightarrow> nat"
  assumes step: "\<And>s x. x \<in> set xs \<Longrightarrow> I s \<Longrightarrow> \<exists>s'. f s x = Inr s' \<and> I s' \<and> m s' = m s + g x"
    and "I s"
  shows "\<exists>s'. forEach f xs s = Inr s' \<and> I s' \<and> m s' = m s + sum_list (map g xs)"
  using assms
proof (induction xs arbitrary: s)
  case Nil
  then show ?case by simp
next
  case (Cons x xs)
  from Cons.prems(1)[of x s] Cons.prems(2)
  obtain s1 where s1: "f s x = Inr s1" and I1: "I s1" and m1: "m s1 = m s + g x"
    by auto
  have "\<exists>s'. forEach f xs s1 = Inr s' \<and> I s' \<and> m s' = m s1 + sum_list (map g xs)"
  proof (rule Cons.IH)
    fix y t assume "y \<in> set xs" and "I t"
    then show "\<exists>s'. f t y = Inr s' \<and> I s' \<and> m s' = m t + g y"
      using Cons.prems(1)[of y t] by simp
  qed (rule I1)
  with s1 m1 show ?case by auto
qed

section \<open>Counting over a belt\<close>

lemma truthy_get_prop: "truthy v \<Longrightarrow> \<exists>w. get_prop v k = Inr w"
  by (cases v) simp_all

lemma calculateStageCounts_absent:
  assumes "\<not> truthy belt \<or> (\<forall>bags. get_prop belt ''bags_on_belt'' \<noteq> Inr (JArr bags))"
  shows "calculateStageCounts parse this belt = Inr (zeroCounts (getBeltStages this))"
proof (cases "truthy belt")
  case False
  then show ?thesis by (simp add: calculateStageCounts_def)
next
  case True
  with assms have no: "\<forall>bags. get_prop belt ''bags_on_belt'' \<noteq> Inr (JArr bags)" by simp
  from truthy_get_prop[OF True] obtain w where w: "get_prop belt ''bags_on_belt'' = Inr w"
    by blast
  with no have "\<forall>bags. w \<noteq> JArr bags" by simp
  with True w show ?thesis
    by (cases w) (simp_all add: calculateStageCounts_def)
qed

lemma calculateStageCounts_bags:
  assumes "truthy belt" and "get_prop belt ''bags_on_belt'' = Inr (JArr bags)"
  shows "calculateStageCounts parse this belt =
           forEach (countBag parse this) bags (zeroCounts (getBeltStages this))"
  using assms by (simp add: calculateStageCounts_def)

lemma bagCount_absent:
  assumes "\<not> truthy belt \<or> (\<forall>bags. get_prop belt ''bags_on_belt'' \<noteq> Inr (JArr bags))"
  shows "bagCount belt = 0"
proof (cases "truthy belt")
  case False
  then show ?thesis by (simp add: bagCount_def)
next
  case True
  with assms have no: "\<forall>bags. get_prop belt ''bags_on_belt'' \<noteq> Inr (JArr bags)" by simp
  from truthy_get_prop[OF True] obtain w where w: "get_prop belt ''bags_on_belt'' = Inr w"
    by blast
  with no have "\<forall>bags. w \<noteq> JArr bags" by simp
  with True w show ?thesis
    by (cases w) (simp_all add: bagCount_def)
qed

lemma bagCount_bags:
  assumes "truthy belt" and "get_prop belt ''bags_on_belt'' = Inr (JArr bags)"
  shows "bagCount belt = length bags"
  using assms by (simp add: bagCount_def)

lemma sum_counts_zeroCounts: "sum_counts (zeroCounts stages) = 0"
proof -
  have "\<forall>p\<in>set (zeroCounts stages). snd p = 0"
    using zeroCounts_zero by blast
  then have "\<forall>n\<in>set (map snd (zeroCounts stages)). n = 0" by simp
  then show ?thesis unfolding sum_counts_def by (simp add: sum_list_eq_0_iff)
qed

lemma forEach_countBag_bound:
  assumes "forEach (countBag parse this) bags (zeroCounts stages) = Inr counts"
  shows "map fst counts = map fst (zeroCounts stages) \<and> sum_counts counts \<le> length bags"
proof -
  let ?I = "\<lambda>c. map fst c = map fst (zeroCounts stages)"
  have "?I counts \<and> sum_counts counts \<le> sum_counts (zeroCounts stages) + length bags"
  proof (rule forEach_bound[where f = "countBag parse this" and I = ?I and m = sum_counts])
    fix s x s'
    assume I: "map fst s = map fst (zeroCounts stages)" and step: "countBag parse this s x = Inr s'"
    from I have "distinct (map fst s)" by (simp add: zeroCounts_distinct)
    from countBag_step[OF step this] I
    show "map fst s' = map fst (zeroCounts stages) \<and> sum_counts s' \<le> sum_counts s + 1" by simp
  next
    show "map fst (zeroCounts stages) = map fst (zeroCounts stages)" ..
  next
    show "forEach (countBag parse this) bags (zeroCounts stages) = Inr counts" by (rule assms)
  qed
  then show ?thesis by (simp add: sum_counts_zeroCounts)
qed

lemma calculateStageCounts_bound:
  assumes "calculateStageCounts parse this belt = Inr counts"
  shows "map fst counts = map fst (zeroCounts (getBeltStages this)) \<and> sum_counts counts \<le> bagCount belt"
proof (cases "truthy belt \<and> (\<exists>bags. get_prop belt ''bags_on_belt'' = Inr (JArr bags))")
  case True
  then obtain bags where t: "truthy belt" and b: "get_prop belt ''bags_on_belt'' = Inr (JArr bags)"
    by blast
  from assms have "forEach (countBag parse this) bags (zeroCounts (getBeltStages this)) = Inr counts"
    unfolding calculateStageCounts_bags[OF t b] .
  from forEach_countBag_bound[OF this] show ?thesis
    unfolding bagCount_bags[OF t b] .
next
  case False
  then have a: "\<not> truthy belt \<or> (\<forall>bags. get_prop belt ''bags_on_belt'' \<noteq> Inr (JArr bags))"
    by blast
  from assms have "counts = zeroCounts (getBeltStages this)"
    unfolding calculateStageCounts_absent[OF a] by simp
  then show ?thesis by (simp add: sum_counts_zeroCounts)
qed

lemma forEach_countBag_returns:
  assumes "\<forall>bag\<in>set bags. countableBag bag"
  shows "\<exists>counts. forEach (countBag parse this) bags c = Inr counts"
proof -
  have "\<exists>s'. forEach (countBag parse this) bags c = Inr s' \<and> True
          \<and> (\<lambda>s. 0::nat) s' = (\<lambda>s. 0) c + sum_list (map (\<lambda>x. 0) bags)"
  proof (rule forEach_exact[where I = "\<lambda>s. True" and m = "\<lambda>s. 0" and g = "\<lambda>x. 0"])
    fix s x assume "x \<in> set bags"
    with assms have "countableBag x" by simp
    from countBag_returns[OF this, of parse this s]
    show "\<exists>s'. countBag parse this s x = Inr s' \<and> True \<and> (0::nat) = 0 + 0" by simp
  qed simp
  then show ?thesis by blast
qed

lemma forEach_countBag_exact:
  assumes bags: "\<forall>bag\<in>set bags. countableBag bag"
    and ne: "getBeltStages this \<noteq> []"
    and ids: "\<forall>s\<in>set (getBeltStages this). stage_id s \<noteq> [] \<and> stage_id s \<noteq> ''__proto__''"
  shows "\<exists>counts. forEach (countBag parse this) bags (zeroCounts (getBeltStages this)) = Inr counts
            \<and> map fst counts = map fst (zeroCounts (getBeltStages this))
            \<and> sum_counts counts = length bags"
proof -
  let ?Z = "zeroCounts (getBeltStages this)"
  let ?I = "\<lambda>c. map fst c = map fst ?Z"
  have keys: "fst ` set ?Z = stage_id ` set (getBeltStages this)"
    using ids unfolding zeroCounts_keys by auto
  have "\<exists>s'. forEach (countBag parse this) bags ?Z = Inr s' \<and> ?I s'
          \<and> sum_counts s' = sum_counts ?Z + sum_list (map (\<lambda>x. 1) bags)"
  proof (rule forEach_exact[where I = ?I and m = sum_counts and g = "\<lambda>x. 1"])
    fix s :: jsobject and x
    assume x: "x \<in> set bags" and I: "map fst s = map fst ?Z"
    from x bags have nn: "countableBag x" by simp
    from I have dist: "distinct (map fst s)" by (simp add: zeroCounts_distinct)
    from I have "set (map fst s) = set (map fst ?Z)" by simp
    then have "fst ` set s = stage_id ` set (getBeltStages this)"
      using keys by simp
    with ids have own: "\<forall>st\<in>set (getBeltStages this). stage_id st \<noteq> [] \<and> stage_id st \<in> fst ` set s"
      by simp
    from countBag_counted[OF nn ne own dist, of parse] I
    show "\<exists>s'. countBag parse this s x = Inr s' \<and> map fst s' = map fst ?Z \<and> sum_counts s' = sum_counts s + 1"
      by auto
  qed simp
  then show ?thesis by (simp add: sum_counts_zeroCounts sum_list_triv)
qed

lemma canonical_ids:
  "\<forall>s\<in>set (getBeltStages (AirportDashboard cfg)). stage_id s \<noteq> [] \<and> stage_id s \<noteq> ''__proto__''"
  by (simp add: canonicalStages_def)

lemma canonical_nonempty: "getBeltStages (AirportDashboard cfg) \<noteq> []"
  by (simp add: canonicalStages_def)

lemma numeric_bag_present:
  "get_prop bag ''position'' = Inr (JNum n) \<Longrightarrow> countableBag bag"
  by (simp add: countableBag_def)

text \<open>
  Claim C2. With the table of the constructor, a belt whose \<^verbatim>\<open>bags_on_belt\<close> is a list of
  \<open>N\<close> bags, each with a Number as position, gets counts that sum to exactly \<open>N\<close>. For
  every dashboard and every belt, counts that are returned sum to at most the number of
  bags on the belt.
\<close>

theorem calculateStageCounts_conservation:
  "(truthy belt \<and> get_prop belt ''bags_on_belt'' = Inr (JArr bags)
      \<and> (\<forall>bag\<in>set bags. \<exists>n. get_prop bag ''position'' = Inr (JNum n))
     \<longrightarrow> (\<exists>counts. calculateStageCounts parse (AirportDashboard cfg) belt = Inr counts
              \<and> sum_counts counts = length bags))
   \<and> (calculateStageCounts parse this belt' = Inr counts' \<longrightarrow> sum_counts counts' \<le> bagCount belt')"
proof (intro conjI impI)
  assume a: "truthy belt \<and> get_prop belt ''bags_on_belt'' = Inr (JArr bags)
             \<and> (\<forall>bag\<in>set bags. \<exists>n. get_prop bag ''position'' = Inr (JNum n))"
  then have t: "truthy belt" and b: "get_prop belt ''bags_on_belt'' = Inr (JArr bags)"
    by simp_all
  from a have present: "\<forall>bag\<in>set bags. countableBag bag"
    using numeric_bag_present by blast
  from forEach_countBag_exact[OF present canonical_nonempty[of cfg] canonical_ids[of cfg],
         where parse = parse]
  show "\<exists>counts. calculateStageCounts parse (AirportDashboard cfg) belt = Inr counts
           \<and> sum_counts counts = length bags"
    unfolding calculateStageCounts_bags[OF t b] by blast
next
  assume "calculateStageCounts parse this belt' = Inr counts'"
  from calculateStageCounts_bound[OF this] show "sum_counts counts' \<le> bagCount belt'" by simp
qed

theorem calculateStageCounts_conservation_witness:
  "(\<exists>counts. calculateStageCounts (\<lambda>v. NaN) (AirportDashboard JUndefined)
       (JObj [(''bags_on_belt'',
               JArr [JObj [(''position'', JNum (Fin 10))], JObj [(''position'', JNum (Fin 100))]])])
      = Inr counts \<and> sum_counts counts = 2)
   \<and> sum_counts (zeroCounts canonicalStages) \<le> bagCount JNull"
proof -
  let ?bags = "[JObj [(''position'', JNum (Fin 10))], JObj [(''position'', JNum (Fin 100))]]"
  let ?belt = "JObj [(''bags_on_belt'', JArr ?bags)]"
  let ?D = "AirportDashboard JUndefined"
  let ?P = "\<lambda>v::jsval. NaN"
  note c = calculateStageCounts_conservation
             [of ?belt ?bags ?P JUndefined ?D JNull "zeroCounts canonicalStages"]
  have h1: "truthy ?belt \<and> get_prop ?belt ''bags_on_belt'' = Inr (JArr ?bags)
            \<and> (\<forall>bag\<in>set ?bags. \<exists>n. get_prop bag ''position'' = Inr (JNum n))"
    by simp
  have len: "length ?bags = 2" by simp
  have h2: "calculateStageCounts ?P ?D JNull = Inr (zeroCounts canonicalStages)"
    by (simp add: calculateStageCounts_def)
  from c h1 have "\<exists>counts. calculateStageCounts ?P ?D ?belt = Inr counts
                    \<and> sum_counts counts = length ?bags"
    by blast
  then have a: "\<exists>counts. calculateStageCounts ?P ?D ?belt = Inr counts \<and> sum_counts counts = 2"
    unfolding len .
  from c h2 have b: "sum_counts (zeroCounts canonicalStages) \<le> bagCount JNull"
    by blast
  from a b show ?thesis by (rule conjI)
qed

section \<open>Adding the counts of a belt to the totals\<close>

lemma alist_eqI:
  assumes "map fst a = map fst b" and "distinct (map fst a)" and "\<And>k. map_of a k = map_of b k"
  shows "a = b"
  using assms
proof (induction a arbitrary: b)
  case Nil
  then show ?case by simp
next
  case (Cons p ps)
  from Cons.prems(1) obtain q qs where b: "b = q # qs" and k: "fst p = fst q"
    and ks: "map fst ps = map fst qs"
    by (cases b) auto
  from Cons.prems(3)[of "fst p"] b k have v: "snd p = snd q"
    by (cases p, cases q) simp
  have "ps = qs"
  proof (rule Cons.IH[OF ks])
    show "distinct (map fst ps)" using Cons.prems(2) by simp
  next
    fix x
    show "map_of ps x = map_of qs x"
    proof (cases "x = fst p")
      case True
      with Cons.prems(2) have xp: "x \<notin> fst ` set ps" by auto
      from this ks have xq: "x \<notin> fst ` set qs"
        by (metis list.set_map)
      from xp have "map_of ps x = None" by (simp add: map_of_eq_None_iff)
      moreover from xq have "map_of qs x = None" by (simp add: map_of_eq_None_iff)
      ultimately show ?thesis by simp
    next
      case False
      with Cons.prems(3)[of x] b k show ?thesis
        by (cases p, cases q) (simp split: if_splits)
    qed
  qed
  with k v b show ?case by (cases p, cases q) simp
qed

lemma set_prop_same:
  assumes "distinct (map fst obj)" and "map_of obj k = Some v"
  shows "set_prop obj k v = obj"
proof -
  have own: "k \<in> fst ` set obj" using assms(2) by (rule own_key)
  have "map (\<lambda>p. if fst p = k then (k, v) else p) obj = obj"
  proof (rule map_idI)
    fix p assume p: "p \<in> set obj"
    show "(if fst p = k then (k, v) else p) = p"
    proof (cases "fst p = k")
      case True
      with p have "(k, snd p) \<in> set obj" by (cases p) auto
      with assms(1) have "map_of obj k = Some (snd p)" by simp
      with assms(2) True show ?thesis by (cases p) auto
    next
      case False
      then show ?thesis by simp
    qed
  qed
  with own show ?thesis by (simp add: set_prop_def)
qed

lemma map_fst_addCount: "map fst (addCount counts totals k) = map fst totals"
proof (cases "map_of totals k")
  case None
  then show ?thesis by (simp add: addCount_def)
next
  case (Some t)
  from own_key[OF Some] show ?thesis
    using Some by (cases "map_of counts k") (simp_all add: addCount_def map_fst_set_prop_own)
qed

lemma map_of_addCount:
  "map_of (addCount counts totals k) k' =
     (if k' = k then (case (map_of totals k, map_of counts k) of
                        (Some t, Some c) \<Rightarrow> Some (t + c)
                      | _ \<Rightarrow> map_of totals k)
      else map_of totals k')"
proof (cases "map_of totals k")
  case None
  then show ?thesis by (auto simp add: addCount_def)
next
  case (Some t)
  from own_key[OF Some] show ?thesis
    using Some by (cases "map_of counts k") (auto simp add: addCount_def map_of_set_prop)
qed

lemma map_fst_addCounts:
  "map fst (foldl (\<lambda>acc k. addCount counts acc k) totals ks) = map fst totals"
  by (induction ks arbitrary: totals) (simp_all add: map_fst_addCount)

lemma map_of_addCounts:
  assumes "distinct ks"
  shows "map_of (foldl (\<lambda>acc k. addCount counts acc k) totals ks) k' =
     (if k' \<in> set ks then (case (map_of totals k', map_of counts k') of
                        (Some t, Some c) \<Rightarrow> Some (t + c)
                      | _ \<Rightarrow> map_of totals k')
      else map_of totals k')"
  using assms
proof (induction ks arbitrary: totals)
  case Nil
  show ?case by simp
next
  case (Cons k ks)
  from Cons.prems have d: "distinct ks" and nk: "k \<notin> set ks" by simp_all
  show ?case
  proof (cases "k' = k")
    case True
    from nk True Cons.IH[OF d, of "addCount counts totals k"]
    have "map_of (foldl (\<lambda>acc k. addCount counts acc k) totals (k # ks)) k
            = map_of (addCount counts totals k) k"
      by simp
    then show ?thesis
      unfolding True by (simp add: map_of_addCount split: option.splits)
  next
    case False
    then have eq: "map_of (addCount counts totals k) k' = map_of totals k'"
      by (simp add: map_of_addCount)
    from False Cons.IH[OF d, of "addCount counts totals k"] show ?thesis
      unfolding eq by simp
  qed
qed

lemma map_fst_elementwise_sum: "map fst (elementwise_sum a b) = map fst a"
  by (simp add: elementwise_sum_def comp_def)

lemma map_of_elementwise_sum:
  "map_of (elementwise_sum a b) k = map_option (\<lambda>t. t + count_of b k) (map_of a k)"
  unfolding elementwise_sum_def by (induction a) auto

lemma addCounts_elementwise:
  assumes d: "distinct ks" and dt: "distinct (map fst totals)"
    and keys: "map fst counts = map fst totals" and sub: "fst ` set totals \<subseteq> set ks"
  shows "foldl (\<lambda>acc k. addCount counts acc k) totals ks = elementwise_sum totals counts"
proof (rule alist_eqI)
  show "map fst (foldl (\<lambda>acc k. addCount counts acc k) totals ks)
          = map fst (elementwise_sum totals counts)"
    by (simp add: map_fst_addCounts map_fst_elementwise_sum)
next
  show "distinct (map fst (foldl (\<lambda>acc k. addCount counts acc k) totals ks))"
    using dt by (simp add: map_fst_addCounts)
next
  fix k
  show "map_of (foldl (\<lambda>acc k. addCount counts acc k) totals ks) k
          = map_of (elementwise_sum totals counts) k"
  proof (cases "map_of totals k")
    case None
    then show ?thesis
      by (simp add: map_of_addCounts[OF d] map_of_elementwise_sum)
  next
    case (Some t)
    from own_key[OF Some] sub have kin: "k \<in> set ks" by blast
    from own_key[OF Some] have "k \<in> set (map fst totals)" by simp
    then have "k \<in> set (map fst counts)" unfolding keys .
    then have "k \<in> fst ` set counts" by simp
    then obtain c where c: "map_of counts k = Some c"
      by (metis domD dom_map_of_conv_image_fst)
    from Some c kin show ?thesis
      by (simp add: map_of_addCounts[OF d] map_of_elementwise_sum count_of_def)
  qed
qed

lemma addCounts_stages:
  "foldl (\<lambda>acc stage. addCount counts acc (stage_id stage)) totals stages
     = foldl (\<lambda>acc k. addCount counts acc k) totals (map stage_id stages)"
  by (simp add: foldl_map)

lemma zeroCounts_keys_sub:
  "map fst totals = map fst (zeroCounts stages) \<Longrightarrow> fst ` set totals \<subseteq> set (map stage_id stages)"
proof -
  assume "map fst totals = map fst (zeroCounts stages)"
  then have "set (map fst totals) = set (map fst (zeroCounts stages))" by simp
  then have "fst ` set totals = fst ` set (zeroCounts stages)" by simp
  then show ?thesis unfolding zeroCounts_keys by auto
qed

lemma addBelt_keys:
  assumes "addBelt parse this totals belt = Inr t'"
  shows "map fst t' = map fst totals"
proof -
  from assms obtain c where "calculateStageCounts parse this belt = Inr c"
    and "t' = foldl (\<lambda>acc stage. addCount c acc (stage_id stage)) totals (getBeltStages this)"
    by (auto simp add: addBelt_def split: sum.splits)
  then show ?thesis by (simp add: addCounts_stages map_fst_addCounts)
qed

lemma addBelt_elementwise:
  assumes d: "distinct (map stage_id (getBeltStages this))"
    and inv: "map fst totals = map fst (zeroCounts (getBeltStages this))"
  shows "addBelt parse this totals belt =
           (case calculateStageCounts parse this belt of
              Inl e \<Rightarrow> Inl e
            | Inr c \<Rightarrow> Inr (elementwise_sum totals c))"
proof (cases "calculateStageCounts parse this belt")
  case (Inl e)
  then show ?thesis by (simp add: addBelt_def)
next
  case (Inr c)
  from calculateStageCounts_bound[OF Inr] inv have keys: "map fst c = map fst totals" by simp
  from inv have dt: "distinct (map fst totals)" by (simp add: zeroCounts_distinct)
  from addCounts_elementwise[OF d dt keys zeroCounts_keys_sub[OF inv]] Inr
  show ?thesis by (simp add: addBelt_def addCounts_stages)
qed

lemma addCount_zero:
  assumes "distinct (map fst totals)" and "\<forall>p\<in>set z. snd p = 0"
  shows "addCount z totals k = totals"
proof (cases "map_of totals k")
  case None
  then show ?thesis by (simp add: addCount_def)
next
  case (Some t)
  show ?thesis
  proof (cases "map_of z k")
    case None
    with Some show ?thesis by (simp add: addCount_def)
  next
    case c: (Some c)
    then have "(k, c) \<in> set z" by (rule map_of_SomeD)
    with assms(2) have "c = 0" by fastforce
    with Some c set_prop_same[OF assms(1) Some] show ?thesis by (simp add: addCount_def)
  qed
qed

lemma addBelt_absent:
  assumes inv: "map fst totals = map fst (zeroCounts (getBeltStages this))"
    and absent: "\<not> truthy belt \<or> (\<forall>bags. get_prop belt ''bags_on_belt'' \<noteq> Inr (JArr bags))"
  shows "addBelt parse this totals belt = Inr totals"
proof -
  let ?Z = "zeroCounts (getBeltStages this)"
  from inv have dt: "distinct (map fst totals)" by (simp add: zeroCounts_distinct)
  have z: "\<forall>p\<in>set ?Z. snd p = 0" using zeroCounts_zero by blast
  have "foldl (\<lambda>acc k. addCount ?Z acc k) totals ks = totals" for ks
    by (induction ks) (simp_all add: addCount_zero[OF dt z])
  with calculateStageCounts_absent[OF absent, of parse this] show ?thesis
    by (simp add: addBelt_def addCounts_stages)
qed

lemma forEach_addBelt:
  assumes d: "distinct (map stage_id (getBeltStages this))"
    and cs: "list_all2 (\<lambda>belt c. calculateStageCounts parse this belt = Inr c) belts cs"
    and inv: "map fst totals = map fst (zeroCounts (getBeltStages this))"
  shows "forEach (addBelt parse this) belts totals = Inr (foldl elementwise_sum totals cs)"
  using cs inv
proof (induction arbitrary: totals rule: list_all2_induct)
  case Nil
  show ?case by simp
next
  case (Cons belt belts c cs)
  from Cons.prems have "map fst (elementwise_sum totals c) = map fst (zeroCounts (getBeltStages this))"
    by (simp add: map_fst_elementwise_sum)
  from Cons.IH[OF this] Cons.hyps(1) show ?case
    by (simp add: addBelt_elementwise[OF d Cons.prems])
qed

lemma elementwise_sum_zero_left:
  assumes keys: "map fst a = map fst z" and dz: "distinct (map fst z)"
    and zero: "\<forall>p\<in>set z. snd p = 0"
  shows "elementwise_sum z a = a"
proof (rule alist_eqI)
  show "map fst (elementwise_sum z a) = map fst a"
    using keys by (simp add: map_fst_elementwise_sum)
next
  show "distinct (map fst (elementwise_sum z a))"
    using dz by (simp add: map_fst_elementwise_sum)
next
  fix k
  show "map_of (elementwise_sum z a) k = map_of a k"
  proof (cases "map_of z k")
    case None
    then have "k \<notin> set (map fst z)" by (simp add: map_of_eq_None_iff)
    then have "k \<notin> set (map fst a)" unfolding keys .
    then have "map_of a k = None" by (simp add: map_of_eq_None_iff)
    with None show ?thesis by (simp add: map_of_elementwise_sum)
  next
    case (Some t)
    then have "(k, t) \<in> set z" by (rule map_of_SomeD)
    with zero have t0: "t = 0" by fastforce
    from own_key[OF Some] have "k \<in> set (map fst z)" by simp
    then have "k \<in> set (map fst a)" unfolding keys[symmetric] .
    then have "k \<in> fst ` set a" by simp
    then obtain c where c: "map_of a k = Some c"
      by (metis domD dom_map_of_conv_image_fst)
    with Some t0 show ?thesis by (simp add: map_of_elementwise_sum count_of_def)
  qed
qed

lemma count_of_elementwise_sum:
  "k \<in> fst ` set a \<Longrightarrow> count_of (elementwise_sum a b) k = count_of a k + count_of b k"
proof -
  assume "k \<in> fst ` set a"
  then obtain t where "map_of a k = Some t"
    by (metis domD dom_map_of_conv_image_fst)
  then show ?thesis
    unfolding count_of_def[of "elementwise_sum a b"] map_of_elementwise_sum
    by (simp add: count_of_def)
qed

lemma count_of_fold_elementwise_sum:
  "k \<in> fst ` set z \<Longrightarrow>
   count_of (foldl elementwise_sum z cs) k = count_of z k + sum_list (map (\<lambda>c. count_of c k) cs)"
proof (induction cs arbitrary: z)
  case Nil
  show ?case by simp
next
  case (Cons c cs)
  from Cons.prems have "k \<in> set (map fst z)" by simp
  then have "k \<in> set (map fst (elementwise_sum z c))" by (simp only: map_fst_elementwise_sum)
  then have "k \<in> fst ` set (elementwise_sum z c)" by simp
  from Cons.IH[OF this] count_of_elementwise_sum[OF Cons.prems, of c] show ?case by simp
qed

lemma calculateStageCounts_returns:
  assumes "countableBelt belt"
  shows "\<exists>counts. calculateStageCounts parse this belt = Inr counts"
proof (cases "truthy belt \<and> (\<exists>bags. get_prop belt ''bags_on_belt'' = Inr (JArr bags))")
  case True
  then obtain bags where t: "truthy belt" and b: "get_prop belt ''bags_on_belt'' = Inr (JArr bags)"
    by blast
  with assms have "\<forall>bag\<in>set bags. countableBag bag"
    by (simp add: countableBelt_def list_all_iff)
  from forEach_countBag_returns[OF this] show ?thesis
    unfolding calculateStageCounts_bags[OF t b] .
next
  case False
  then have "\<not> truthy belt \<or> (\<forall>bags. get_prop belt ''bags_on_belt'' \<noteq> Inr (JArr bags))"
    by blast
  from calculateStageCounts_absent[OF this] show ?thesis by simp
qed

lemma forEach_addBelt_returns:
  assumes "\<forall>belt\<in>set belts. countableBelt belt"
  shows "\<exists>totals. forEach (addBelt parse this) belts z = Inr totals \<and> map fst totals = map fst z"
proof -
  have "\<exists>s'. forEach (addBelt parse this) belts z = Inr s' \<and> map fst s' = map fst z
          \<and> (\<lambda>s. 0::nat) s' = (\<lambda>s. 0) z + sum_list (map (\<lambda>x. 0) belts)"
  proof (rule forEach_exact[where I = "\<lambda>s. map fst s = map fst z" and m = "\<lambda>s. 0"
          and g = "\<lambda>x. 0"])
    fix s :: jsobject and x
    assume x: "x \<in> set belts" and I: "map fst s = map fst z"
    from x assms have "countableBelt x" by simp
    from calculateStageCounts_returns[OF this, of parse this]
    obtain c where c: "calculateStageCounts parse this x = Inr c" by blast
    then obtain s' where s': "addBelt parse this s x = Inr s'" by (simp add: addBelt_def)
    from addBelt_keys[OF s'] I s'
    show "\<exists>s'. addBelt parse this s x = Inr s' \<and> map fst s' = map fst z \<and> (0::nat) = 0 + 0"
      by simp
  qed simp
  then show ?thesis by blast
qed

section \<open>Aggregation over belts\<close>

lemma forEach_addBelt_keys:
  assumes "forEach (addBelt parse this) belts z = Inr t"
  shows "map fst t = map fst z"
proof -
  have "map fst t = map fst z \<and> (\<lambda>s. 0::nat) t \<le> (\<lambda>s. 0) z + length belts"
  proof (rule forEach_bound[where f = "addBelt parse this" and I = "\<lambda>s. map fst s = map fst z"
          and m = "\<lambda>s. 0"])
    fix s :: jsobject and x s'
    assume "map fst s = map fst z" and "addBelt parse this s x = Inr s'"
    with addBelt_keys[of parse this s x s']
    show "map fst s' = map fst z \<and> (0::nat) \<le> 0 + 1" by simp
  next
    show "map fst z = map fst z" ..
  next
    show "forEach (addBelt parse this) belts z = Inr t" by (rule assms)
  qed
  then show ?thesis by simp
qed

lemma aggregateStageCounts_array:
  "aggregateStageCounts parse this (JArr belts) =
     forEach (addBelt parse this) belts (zeroCounts (getBeltStages this))"
  by (simp add: aggregateStageCounts_def)

lemma aggregateStageCounts_skip_absent:
  assumes absent: "\<not> truthy m \<or> (\<forall>bags. get_prop m ''bags_on_belt'' \<noteq> Inr (JArr bags))"
  shows "aggregateStageCounts parse this (JArr (pre @ m # post))
           = aggregateStageCounts parse this (JArr (pre @ post))"
proof (cases "forEach (addBelt parse this) pre (zeroCounts (getBeltStages this))")
  case (Inl e)
  then show ?thesis by (simp add: aggregateStageCounts_array forEach_append)
next
  case (Inr t)
  from forEach_addBelt_keys[OF Inr] have "addBelt parse this t m = Inr t"
    using absent by (rule addBelt_absent)
  with Inr show ?thesis by (simp add: aggregateStageCounts_array forEach_append)
qed

lemma aggregateStageCounts_pair:
  assumes d: "distinct (map stage_id (getBeltStages this))"
  shows "aggregateStageCounts parse this (JArr [A, B]) =
     (case calculateStageCounts parse this A of
        Inl e \<Rightarrow> Inl e
      | Inr a \<Rightarrow>
          (case calculateStageCounts parse this B of
             Inl e \<Rightarrow> Inl e
           | Inr b \<Rightarrow> Inr (elementwise_sum a b)))"
proof (cases "calculateStageCounts parse this A")
  case (Inl e)
  then show ?thesis by (simp add: aggregateStageCounts_array addBelt_def)
next
  case (Inr a)
  let ?Z = "zeroCounts (getBeltStages this)"
  from calculateStageCounts_bound[OF Inr] have keys: "map fst a = map fst ?Z" by simp
  have z: "\<forall>p\<in>set ?Z. snd p = 0" using zeroCounts_zero by blast
  have "addBelt parse this ?Z A = Inr (elementwise_sum ?Z a)"
    using Inr by (simp add: addBelt_elementwise[OF d refl])
  then have first: "addBelt parse this ?Z A = Inr a"
    by (simp add: elementwise_sum_zero_left[OF keys zeroCounts_distinct z])
  from first Inr show ?thesis
    by (simp add: aggregateStageCounts_array addBelt_elementwise[OF d keys] split: sum.splits)
qed

lemma count_of_zeroCounts: "count_of (zeroCounts stages) k = 0"
proof (cases "map_of (zeroCounts stages) k")
  case None
  then show ?thesis by (simp add: count_of_def)
next
  case (Some c)
  then have "(k, c) \<in> set (zeroCounts stages)" by (rule map_of_SomeD)
  from zeroCounts_zero[OF this] Some show ?thesis by (simp add: count_of_def)
qed

text \<open>
  Claim C4, as amended. For a stage table with unique ids:
  \<^item> the aggregate of two belts is the element-wise sum of their counts, and raises when
    the counting of either belt raises;
  \<^item> for every list of belts whose counts are all returned, the aggregate is the
    element-wise sum of those counts over the zero-initialised object, key by key;
  \<^item> a belt that is absent (falsy) or has no \<^verbatim>\<open>bags_on_belt\<close> array has all-zero counts,
    and the aggregate is what it is without that belt.
  A belt whose bag list has a \<^verbatim>\<open>null\<close> or \<^verbatim>\<open>undefined\<close> entry is not absorbed: counting it
  raises, and so does the aggregation.
\<close>

theorem aggregateStageCounts_additive:
  assumes "distinct (map stage_id (getBeltStages this))"
  shows
  "aggregateStageCounts parse this (JArr [A, B]) =
     (case calculateStageCounts parse this A of
        Inl e \<Rightarrow> Inl e
      | Inr a \<Rightarrow>
          (case calculateStageCounts parse this B of
             Inl e \<Rightarrow> Inl e
           | Inr b \<Rightarrow> Inr (elementwise_sum a b)))
   \<and> (list_all2 (\<lambda>belt c. calculateStageCounts parse this belt = Inr c) belts cs \<longrightarrow>
        aggregateStageCounts parse this (JArr belts)
          = Inr (foldl elementwise_sum (zeroCounts (getBeltStages this)) cs)
        \<and> (\<forall>k\<in>fst ` set (zeroCounts (getBeltStages this)).
              count_of (foldl elementwise_sum (zeroCounts (getBeltStages this)) cs) k
                = sum_list (map (\<lambda>c. count_of c k) cs)))
   \<and> (\<not> truthy m \<or> (\<forall>bags. get_prop m ''bags_on_belt'' \<noteq> Inr (JArr bags)) \<longrightarrow>
        calculateStageCounts parse this m = Inr (zeroCounts (getBeltStages this))
        \<and> (\<forall>p\<in>set (zeroCounts (getBeltStages this)). snd p = 0)
        \<and> aggregateStageCounts parse this (JArr (pre @ m # post))
            = aggregateStageCounts parse this (JArr (pre @ post)))"
proof (intro conjI impI ballI)
  show "aggregateStageCounts parse this (JArr [A, B]) =
     (case calculateStageCounts parse this A of
        Inl e \<Rightarrow> Inl e
      | Inr a \<Rightarrow>
          (case calculateStageCounts parse this B of
             Inl e \<Rightarrow> Inl e
           | Inr b \<Rightarrow> Inr (elementwise_sum a b)))"
    using assms by (rule aggregateStageCounts_pair)
next
  assume "list_all2 (\<lambda>belt c. calculateStageCounts parse this belt = Inr c) belts cs"
  from forEach_addBelt[OF assms this refl]
  show "aggregateStageCounts parse this (JArr belts)
          = Inr (foldl elementwise_sum (zeroCounts (getBeltStages this)) cs)"
    by (simp add: aggregateStageCounts_array)
next
  fix k assume "k \<in> fst ` set (zeroCounts (getBeltStages this))"
  from count_of_fold_elementwise_sum[OF this, of cs]
  show "count_of (foldl elementwise_sum (zeroCounts (getBeltStages this)) cs) k
          = sum_list (map (\<lambda>c. count_of c k) cs)"
    by (simp add: count_of_zeroCounts)
next
  assume "\<not> truthy m \<or> (\<forall>bags. get_prop m ''bags_on_belt'' \<noteq> Inr (JArr bags))"
  then show "calculateStageCounts parse this m = Inr (zeroCounts (getBeltStages this))"
    by (rule calculateStageCounts_absent)
next
  fix p assume "p \<in> set (zeroCounts (getBeltStages this))"
  then show "snd p = 0" by (rule zeroCounts_zero)
next
  assume "\<not> truthy m \<or> (\<forall>bags. get_prop m ''bags_on_belt'' \<noteq> Inr (JArr bags))"
  then show "aggregateStageCounts parse this (JArr (pre @ m # post))
               = aggregateStageCounts parse this (JArr (pre @ post))"
    by (rule aggregateStageCounts_skip_absent)
qed

lemma canonical_distinct: "distinct (map stage_id (getBeltStages (AirportDashboard cfg)))"
  by (simp add: canonicalStages_def)

lemma countBag_canonical:
  "countBag parse (AirportDashboard cfg) counts (JObj [(''position'', JNum (Fin x))]) =
     (let k = (if 0 \<le> x \<and> x < 25 then ''checking''
               else if 25 \<le> x \<and> x < 50 then ''sorting''
               else if 50 \<le> x \<and> x < 75 then ''security''
               else ''boarding'')
      in case map_of counts k of Some n \<Rightarrow> Inr (set_prop counts k (n + 1)) | None \<Rightarrow> Inr counts)"
  by (simp add: countBag_def canonical_num Let_def)

theorem aggregateStageCounts_additive_witness:
  "aggregateStageCounts (\<lambda>v. NaN) (AirportDashboard JUndefined)
     (JArr [JObj [(''bags_on_belt'', JArr [JObj [(''position'', JNum (Fin 10))]])],
            JObj [(''bags_on_belt'', JArr [JObj [(''position'', JNum (Fin 30))],
                                           JObj [(''position'', JNum (Fin 100))]])]])
     = Inr [(''checking'', 1), (''sorting'', 1), (''security'', 0), (''boarding'', 1)]
   \<and> aggregateStageCounts (\<lambda>v. NaN) (AirportDashboard JUndefined)
       (JArr [JObj [(''bags_on_belt'', JArr [JObj [(''position'', JNum (Fin 10))]])],
              JNull,
              JObj [(''bags_on_belt'', JArr [JObj [(''position'', JNum (Fin 30))],
                                             JObj [(''position'', JNum (Fin 100))]])]])
     = aggregateStageCounts (\<lambda>v. NaN) (AirportDashboard JUndefined)
         (JArr [JObj [(''bags_on_belt'', JArr [JObj [(''position'', JNum (Fin 10))]])],
                JObj [(''bags_on_belt'', JArr [JObj [(''position'', JNum (Fin 30))],
                                               JObj [(''position'', JNum (Fin 100))]])]])
   \<and> aggregateStageCounts (\<lambda>v. NaN) (AirportDashboard JUndefined)
       (JArr [JObj [(''bags_on_belt'', JArr [JObj [(''position'', JNum (Fin 10))]])]])
     = Inr [(''checking'', 1), (''sorting'', 0), (''security'', 0), (''boarding'', 0)]"
proof -
  let ?P = "\<lambda>v::jsval. NaN"
  let ?D = "AirportDashboard JUndefined"
  let ?A = "JObj [(''bags_on_belt'', JArr [JObj [(''position'', JNum (Fin 10))]])]"
  let ?B = "JObj [(''bags_on_belt'', JArr [JObj [(''position'', JNum (Fin 30))],
                                          JObj [(''position'', JNum (Fin 100))]])]"
  let ?a = "[(''checking'', 1), (''sorting'', 0), (''security'', 0), (''boarding'', 0 :: nat)]"
  let ?b = "[(''checking'', 0), (''sorting'', 1), (''security'', 0), (''boarding'', 1 :: nat)]"
  have d: "distinct (map stage_id (getBeltStages ?D))"
    by (rule canonical_distinct)
  note additive = aggregateStageCounts_additive [OF d, of ?P ?A ?B "[?A]" "[?a]" JNull "[?A]" "[?B]"]
  have cA: "calculateStageCounts ?P ?D ?A = Inr ?a"
    by (simp add: calculateStageCounts_def countBag_canonical zeroCounts_canonical set_prop_def)
  have cB: "calculateStageCounts ?P ?D ?B = Inr ?b"
    by (simp add: calculateStageCounts_def countBag_canonical zeroCounts_canonical set_prop_def)
  have absent: "\<not> truthy JNull \<or> (\<forall>bags. get_prop JNull ''bags_on_belt'' \<noteq> Inr (JArr bags))"
    by simp
  have each: "list_all2 (\<lambda>belt c. calculateStageCounts ?P ?D belt = Inr c) [?A] [?a]"
    using cA by simp
  from additive have "aggregateStageCounts ?P ?D (JArr [?A, ?B]) =
     (case calculateStageCounts ?P ?D ?A of
        Inl e \<Rightarrow> Inl e
      | Inr a \<Rightarrow>
          (case calculateStageCounts ?P ?D ?B of
             Inl e \<Rightarrow> Inl e
           | Inr b \<Rightarrow> Inr (elementwise_sum a b)))"
    by (rule conjunct1)
  then have one: "aggregateStageCounts ?P ?D (JArr [?A, ?B])
                    = Inr [(''checking'', 1), (''sorting'', 1), (''security'', 0), (''boarding'', 1)]"
    unfolding cA cB by (simp add: elementwise_sum_def count_of_def)
  from additive absent
  have "aggregateStageCounts ?P ?D (JArr ([?A] @ JNull # [?B]))
          = aggregateStageCounts ?P ?D (JArr ([?A] @ [?B]))"
    by (simp only: simp_thms)
  then have two: "aggregateStageCounts ?P ?D (JArr [?A, JNull, ?B])
                    = aggregateStageCounts ?P ?D (JArr [?A, ?B])"
    by simp
  from additive each
  have "aggregateStageCounts ?P ?D (JArr [?A])
          = Inr (foldl elementwise_sum (zeroCounts (getBeltStages ?D)) [?a])"
    by (simp only: simp_thms)
  then have three: "aggregateStageCounts ?P ?D (JArr [?A]) = Inr ?a"
    by (simp add: zeroCounts_canonical elementwise_sum_def count_of_def)
  from one two three show ?thesis by (intro conjI)
qed

lemma countBag_missing: "countBag parse this counts JNull = Inl TypeError"
  by (simp add: countBag_def)

theorem aggregateStageCounts_missing_bag_aborts:
  "aggregateStageCounts (\<lambda>v. NaN) (AirportDashboard JUndefined)
     (JArr [JObj [(''bags_on_belt'', JArr [JNull])],
            JObj [(''bags_on_belt'', JArr [JObj [(''position'', JNum (Fin 10))]])]])
     = Inl TypeError
   \<and> aggregateStageCounts (\<lambda>v. NaN) (AirportDashboard JUndefined)
       (JArr [JObj [(''bags_on_belt'', JArr [JObj [(''position'', JNum (Fin 10))]])]])
     = Inr [(''checking'', 1), (''sorting'', 0), (''security'', 0), (''boarding'', 0)]"
proof -
  let ?P = "\<lambda>v::jsval. NaN"
  let ?D = "AirportDashboard JUndefined"
  let ?M = "JObj [(''bags_on_belt'', JArr [JNull])]"
  let ?A = "JObj [(''bags_on_belt'', JArr [JObj [(''position'', JNum (Fin 10))]])]"
  have cM: "calculateStageCounts ?P ?D ?M = Inl TypeError"
    by (simp add: calculateStageCounts_def countBag_missing)
  have cA: "calculateStageCounts ?P ?D ?A
              = Inr [(''checking'', 1), (''sorting'', 0), (''security'', 0), (''boarding'', 0)]"
    by (simp add: calculateStageCounts_def countBag_canonical zeroCounts_canonical set_prop_def)
  have one: "aggregateStageCounts ?P ?D (JArr [?M, ?A]) = Inl TypeError"
    by (simp add: aggregateStageCounts_array addBelt_def cM)
  have two: "aggregateStageCounts ?P ?D (JArr [?A])
               = Inr [(''checking'', 1), (''sorting'', 0), (''security'', 0), (''boarding'', 0)]"
    unfolding aggregateStageCounts_array getBeltStages_AirportDashboard zeroCounts_canonical
    by (simp add: addBelt_def cA canonicalStages_def addCount_def set_prop_def)
  from one two show ?thesis by (rule conjI)
qed

section \<open>Shape of the counts\<close>

lemma zeroCounts_step_plain:
  assumes "distinct (map stage_id stages)" and "''__proto__'' \<notin> stage_id ` set stages"
    and "fst ` set acc \<inter> stage_id ` set stages = {}"
  shows "foldl (\<lambda>acc stage. set_prop acc (stage_id stage) 0) acc stages
           = acc @ map (\<lambda>s. (stage_id s, 0)) stages"
  using assms
proof (induction stages arbitrary: acc)
  case Nil
  show ?case by simp
next
  case (Cons s ss)
  from Cons.prems have new: "stage_id s \<notin> fst ` set acc" and np: "stage_id s \<noteq> ''__proto__''"
    by auto
  then have step: "set_prop acc (stage_id s) 0 = acc @ [(stage_id s, 0)]"
    by (simp add: set_prop_def)
  have "foldl (\<lambda>acc stage. set_prop acc (stage_id stage) 0) (acc @ [(stage_id s, 0)]) ss
          = (acc @ [(stage_id s, 0)]) @ map (\<lambda>s. (stage_id s, 0)) ss"
  proof (rule Cons.IH)
    show "distinct (map stage_id ss)" using Cons.prems(1) by simp
    show "''__proto__'' \<notin> stage_id ` set ss" using Cons.prems(2) by simp
    show "fst ` set (acc @ [(stage_id s, 0)]) \<inter> stage_id ` set ss = {}"
      using Cons.prems(1,3) by auto
  qed
  with step show ?case by simp
qed

lemma zeroCounts_plain:
  assumes "distinct (map stage_id stages)" and "''__proto__'' \<notin> stage_id ` set stages"
  shows "zeroCounts stages = map (\<lambda>s. (stage_id s, 0)) stages"
  using zeroCounts_step_plain[OF assms, of "[]"] by (simp add: zeroCounts_def)

lemma calculateStageCounts_no_bags:
  assumes "bagCount belt = 0"
  shows "calculateStageCounts parse this belt = Inr (zeroCounts (getBeltStages this))"
proof (cases "truthy belt \<and> (\<exists>bags. get_prop belt ''bags_on_belt'' = Inr (JArr bags))")
  case True
  then obtain bags where t: "truthy belt" and b: "get_prop belt ''bags_on_belt'' = Inr (JArr bags)"
    by blast
  from assms have "bags = []" unfolding bagCount_bags[OF t b] by simp
  then show ?thesis unfolding calculateStageCounts_bags[OF t b] by simp
next
  case False
  then have "\<not> truthy belt \<or> (\<forall>bags. get_prop belt ''bags_on_belt'' \<noteq> Inr (JArr bags))"
    by blast
  then show ?thesis by (rule calculateStageCounts_absent)
qed

lemma aggregateStageCounts_not_array:
  assumes "\<forall>belts. conveyorBelts \<noteq> JArr belts"
  shows "aggregateStageCounts parse this conveyorBelts = Inr (zeroCounts (getBeltStages this))"
  using assms by (cases conveyorBelts) (simp_all add: aggregateStageCounts_def)

lemma aggregateStageCounts_returns:
  assumes "\<forall>belts. conveyorBelts = JArr belts \<longrightarrow> (\<forall>belt\<in>set belts. countableBelt belt)"
  shows "\<exists>totals. aggregateStageCounts parse this conveyorBelts = Inr totals
           \<and> map fst totals = map fst (zeroCounts (getBeltStages this))"
proof (cases "\<exists>belts. conveyorBelts = JArr belts")
  case True
  then obtain belts where c: "conveyorBelts = JArr belts" by blast
  with assms have "\<forall>belt\<in>set belts. countableBelt belt" by simp
  from forEach_addBelt_returns[OF this] show ?thesis
    unfolding c aggregateStageCounts_array .
next
  case False
  then have "\<forall>belts. conveyorBelts \<noteq> JArr belts" by simp
  from aggregateStageCounts_not_array[OF this] show ?thesis by simp
qed

text \<open>
  Claim C6, as amended. For a stage table with unique ids, none of them \<^verbatim>\<open>__proto__\<close> (the
  table of the constructor is one), and for every input in which every bag can be counted
  (no entry of a bag list is \<^verbatim>\<open>null\<close> or \<^verbatim>\<open>undefined\<close>, and no position is an object with a
  \<^verbatim>\<open>toString\<close> property of its own or an array holding one): a falsy belt, a belt without a
  \<^verbatim>\<open>bags_on_belt\<close> list, bags with any primitive position or none, a belt collection that
  is not a list. Then \<^verbatim>\<open>calculateStageCounts\<close> and \<^verbatim>\<open>aggregateStageCounts\<close> return, and the
  object returned has exactly the ids of the stage table as keys, one entry per stage,
  each a natural number. A belt with no bags, and a belt collection that is not a list,
  give the all-zero object.
\<close>

theorem stageCounts_structurally_valid:
  assumes "distinct (map stage_id (getBeltStages this))"
    and "''__proto__'' \<notin> stage_id ` set (getBeltStages this)"
  shows
  "(countableBelt belt \<longrightarrow>
      (\<exists>counts. calculateStageCounts parse this belt = Inr counts
         \<and> map fst counts = map stage_id (getBeltStages this)))
   \<and> ((\<forall>belts. conveyorBelts = JArr belts \<longrightarrow> (\<forall>b\<in>set belts. countableBelt b)) \<longrightarrow>
      (\<exists>totals. aggregateStageCounts parse this conveyorBelts = Inr totals
         \<and> map fst totals = map stage_id (getBeltStages this)))
   \<and> (bagCount belt = 0 \<longrightarrow>
        calculateStageCounts parse this belt
          = Inr (map (\<lambda>s. (stage_id s, 0)) (getBeltStages this)))
   \<and> ((\<forall>belts. conveyorBelts \<noteq> JArr belts) \<longrightarrow>
        aggregateStageCounts parse this conveyorBelts
          = Inr (map (\<lambda>s. (stage_id s, 0)) (getBeltStages this)))"
proof -
  have z: "zeroCounts (getBeltStages this) = map (\<lambda>s. (stage_id s, 0)) (getBeltStages this)"
    using assms by (rule zeroCounts_plain)
  have keys: "map fst (zeroCounts (getBeltStages this)) = map stage_id (getBeltStages this)"
    unfolding z by (simp add: comp_def)
  show ?thesis
  proof (intro conjI impI)
    assume "countableBelt belt"
    from calculateStageCounts_returns[OF this, of parse this]
    obtain counts where c: "calculateStageCounts parse this belt = Inr counts" by blast
    from calculateStageCounts_bound[OF c] keys
    have "map fst counts = map stage_id (getBeltStages this)" by simp
    with c show "\<exists>counts. calculateStageCounts parse this belt = Inr counts
                   \<and> map fst counts = map stage_id (getBeltStages this)"
      by blast
  next
    assume "\<forall>belts. conveyorBelts = JArr belts \<longrightarrow> (\<forall>b\<in>set belts. countableBelt b)"
    from aggregateStageCounts_returns[OF this, of parse this]
    show "\<exists>totals. aggregateStageCounts parse this conveyorBelts = Inr totals
            \<and> map fst totals = map stage_id (getBeltStages this)"
      unfolding keys .
  next
    assume "bagCount belt = 0"
    from calculateStageCounts_no_bags[OF this, of parse this]
    show "calculateStageCounts parse this belt
            = Inr (map (\<lambda>s. (stage_id s, 0)) (getBeltStages this))"
      unfolding z .
  next
    assume "\<forall>belts. conveyorBelts \<noteq> JArr belts"
    from aggregateStageCounts_not_array[OF this, of parse this]
    show "aggregateStageCounts parse this conveyorBelts
            = Inr (map (\<lambda>s. (stage_id s, 0)) (getBeltStages this))"
      unfolding z .
  qed
qed

lemma canonical_no_proto: "''__proto__'' \<notin> stage_id ` set (getBeltStages (AirportDashboard cfg))"
  by (simp add: canonicalStages_def)

theorem stageCounts_structurally_valid_witness:
  "(\<exists>counts. calculateStageCounts (\<lambda>v. NaN) (AirportDashboard JUndefined)
       (JObj [(''bags_on_belt'',
               JArr [JObj [], JObj [(''position'', JStr ''far'')], JNum (Fin 3)])])
      = Inr counts
      \<and> map fst counts = [''checking'', ''sorting'', ''security'', ''boarding''])
   \<and> (\<exists>totals. aggregateStageCounts (\<lambda>v. NaN) (AirportDashboard JUndefined)
         (JArr [JNull, JObj [(''bags_on_belt'', JArr [JObj []])], JStr ''belt''])
        = Inr totals
        \<and> map fst totals = [''checking'', ''sorting'', ''security'', ''boarding''])
   \<and> calculateStageCounts (\<lambda>v. NaN) (AirportDashboard JUndefined) JNull
       = Inr [(''checking'', 0), (''sorting'', 0), (''security'', 0), (''boarding'', 0)]
   \<and> aggregateStageCounts (\<lambda>v. NaN) (AirportDashboard JUndefined) (JStr ''none'')
       = Inr [(''checking'', 0), (''sorting'', 0), (''security'', 0), (''boarding'', 0)]"
proof -
  let ?P = "\<lambda>v::jsval. NaN"
  let ?D = "AirportDashboard JUndefined"
  let ?belt = "JObj [(''bags_on_belt'',
                      JArr [JObj [], JObj [(''position'', JStr ''far'')], JNum (Fin 3)])]"
  let ?belts = "JArr [JNull, JObj [(''bags_on_belt'', JArr [JObj []])], JStr ''belt'']"
  have d: "distinct (map stage_id (getBeltStages ?D))"
    by (rule canonical_distinct)
  have np: "''__proto__'' \<notin> stage_id ` set (getBeltStages ?D)"
    by (rule canonical_no_proto)
  note valid = stageCounts_structurally_valid [OF d np]
  have ids: "map stage_id (getBeltStages ?D) = [''checking'', ''sorting'', ''security'', ''boarding'']"
    by (simp add: canonicalStages_def)
  have zeros: "map (\<lambda>s. (stage_id s, 0::nat)) (getBeltStages ?D)
                 = [(''checking'', 0), (''sorting'', 0), (''security'', 0), (''boarding'', 0)]"
    by (simp add: canonicalStages_def)
  have h1: "countableBelt ?belt"
    by (simp add: countableBelt_def countableBag_def)
  have h2: "\<forall>belts. ?belts = JArr belts \<longrightarrow> (\<forall>b\<in>set belts. countableBelt b)"
    by (simp add: countableBelt_def countableBag_def)
  have h3: "bagCount JNull = 0"
    by (simp add: bagCount_def)
  have h4: "\<forall>belts. JStr ''none'' \<noteq> JArr belts"
    by simp
  from valid [of ?belt ?P ?belts] h1
  have "\<exists>counts. calculateStageCounts ?P ?D ?belt = Inr counts
          \<and> map fst counts = map stage_id (getBeltStages ?D)"
    by (simp only: simp_thms)
  then have one: "\<exists>counts. calculateStageCounts ?P ?D ?belt = Inr counts
          \<and> map fst counts = [''checking'', ''sorting'', ''security'', ''boarding'']"
    unfolding ids .
  from valid [of ?belt ?P ?belts] h2
  have "\<exists>totals. aggregateStageCounts ?P ?D ?belts = Inr totals
          \<and> map fst totals = map stage_id (getBeltStages ?D)"
    by (simp only: simp_thms)
  then have two: "\<exists>totals. aggregateStageCounts ?P ?D ?belts = Inr totals
          \<and> map fst totals = [''checking'', ''sorting'', ''security'', ''boarding'']"
    unfolding ids .
  from valid [of JNull ?P "JStr ''none''"] h3
  have "calculateStageCounts ?P ?D JNull = Inr (map (\<lambda>s. (stage_id s, 0)) (getBeltStages ?D))"
    by (simp only: simp_thms)
  then have three: "calculateStageCounts ?P ?D JNull
      = Inr [(''checking'', 0), (''sorting'', 0), (''security'', 0), (''boarding'', 0)]"
    unfolding zeros .
  from valid [of JNull ?P "JStr ''none''"] h4
  have "aggregateStageCounts ?P ?D (JStr ''none'')
          = Inr (map (\<lambda>s. (stage_id s, 0)) (getBeltStages ?D))"
    by (simp only: simp_thms)
  then have four: "aggregateStageCounts ?P ?D (JStr ''none'')
      = Inr [(''checking'', 0), (''sorting'', 0), (''security'', 0), (''boarding'', 0)]"
    unfolding zeros .
  from one two three four show ?thesis by (intro conjI)
qed

lemma countBag_unconvertible:
  assumes "getBeltStages this \<noteq> []" and "unconvertible position"
  shows "countBag parse this counts (JObj [(''position'', position)]) = Inl TypeError"
  using getStageForPosition_raises[OF assms, of parse] by (simp add: countBag_def)

theorem calculateStageCounts_missing_bag_raises:
  "calculateStageCounts (\<lambda>v. NaN) (AirportDashboard JUndefined)
     (JObj [(''bags_on_belt'', JArr [JObj [(''position'', JNum (Fin 10))], JNull])])
     = Inl TypeError
   \<and> calculateStageCounts (\<lambda>v. NaN) (AirportDashboard JUndefined)
       (JObj [(''bags_on_belt'',
               JArr [JObj [(''position'', JObj [(''toString'', JNum (Fin 0))])]])])
     = Inl TypeError"
proof -
  let ?P = "\<lambda>v::jsval. NaN"
  let ?D = "AirportDashboard JUndefined"
  have one: "calculateStageCounts ?P ?D
               (JObj [(''bags_on_belt'', JArr [JObj [(''position'', JNum (Fin 10))], JNull])])
             = Inl TypeError"
    by (simp add: calculateStageCounts_def countBag_canonical countBag_missing
        zeroCounts_canonical set_prop_def)
  have "unconvertible (JObj [(''toString'', JNum (Fin 0))])"
    by simp
  from countBag_unconvertible[OF canonical_nonempty[of JUndefined] this, of ?P]
  have two: "calculateStageCounts ?P ?D
               (JObj [(''bags_on_belt'',
                       JArr [JObj [(''position'', JObj [(''toString'', JNum (Fin 0))])]])])
             = Inl TypeError"
    by (simp add: calculateStageCounts_def)
  from one two show ?thesis by (rule conjI)
qed

section \<open>Dominant stage of all-zero counts\<close>

lemma all_zero_eq:
  assumes "\<forall>p\<in>set c. snd p = (0::nat)"
  shows "c = map (\<lambda>k. (k, 0)) (map fst c)"
  using assms by (induction c) auto

lemma all_zero_is_zeroCounts:
  assumes keys: "map fst counts = map fst (zeroCounts stages)"
    and zero: "\<forall>p\<in>set counts. snd p = 0"
  shows "counts = zeroCounts stages"
proof -
  have "\<forall>p\<in>set (zeroCounts stages). snd p = 0" using zeroCounts_zero by blast
  from all_zero_eq[OF this] all_zero_eq[OF zero] keys show ?thesis by simp
qed

lemma hd_set_prop:
  assumes "obj \<noteq> []"
  shows "set_prop obj k v \<noteq> [] \<and> fst (hd (set_prop obj k v)) = fst (hd obj)"
proof -
  from assms obtain p ps where obj: "obj = p # ps" by (cases obj) auto
  have "map fst (set_prop obj k v) = map fst obj \<or> map fst (set_prop obj k v) = map fst obj @ [k]"
    by (simp add: map_fst_set_prop)
  then have "map fst (set_prop obj k v) \<noteq> [] \<and> hd (map fst (set_prop obj k v)) = fst p"
    unfolding obj by auto
  then show ?thesis unfolding obj by (cases "set_prop (p # ps) k v") auto
qed

lemma hd_zeroCounts_step:
  "acc \<noteq> [] \<Longrightarrow>
   foldl (\<lambda>acc stage. set_prop acc (stage_id stage) 0) acc stages \<noteq> []
   \<and> fst (hd (foldl (\<lambda>acc stage. set_prop acc (stage_id stage) 0) acc stages)) = fst (hd acc)"
proof (induction stages arbitrary: acc)
  case Nil
  then show ?case by simp
next
  case (Cons s ss)
  from hd_set_prop[OF Cons.prems, of "stage_id s" 0]
  have ne: "set_prop acc (stage_id s) 0 \<noteq> []"
    and h: "fst (hd (set_prop acc (stage_id s) 0)) = fst (hd acc)" by simp_all
  from Cons.IH[OF ne] h show ?case by simp
qed

lemma hd_zeroCounts:
  assumes "stages \<noteq> []" and "stage_id (hd stages) \<noteq> ''__proto__''"
  shows "zeroCounts stages \<noteq> [] \<and> fst (hd (zeroCounts stages)) = stage_id (hd stages)"
proof -
  from assms(1) obtain s ss where st: "stages = s # ss" by (cases stages) auto
  with assms(2) have first: "set_prop [] (stage_id s) 0 = [(stage_id s, 0)]"
    by (simp add: set_prop_def)
  have "[(stage_id s, 0::nat)] \<noteq> []" by simp
  from hd_zeroCounts_step[OF this, of ss] show ?thesis
    unfolding st zeroCounts_def by (simp add: first)
qed

lemma Object_entries_no_index:
  assumes "\<forall>p\<in>set obj. array_index (fst p) = None"
  shows "Object_entries obj = obj"
proof -
  from assms have "filter (\<lambda>p. array_index (fst p) \<noteq> None) obj = []"
    by (simp add: filter_empty_conv)
  moreover from assms have "filter (\<lambda>p. array_index (fst p) = None) obj = obj"
    by (simp add: filter_id_conv)
  ultimately show ?thesis by (simp add: Object_entries_def)
qed

lemma foldl_dominantStep_zero:
  assumes "\<forall>p\<in>set es. snd p = 0"
  shows "foldl dominantStep e es = e"
  using assms by (induction es) (simp_all add: dominantStep_def)

lemma getDominantStage_zeroCounts:
  assumes ne: "stages \<noteq> []"
    and noidx: "\<forall>s\<in>set stages. array_index (stage_id s) = None"
    and np: "stage_id (hd stages) \<noteq> ''__proto__''"
  shows "getDominantStage (Some (zeroCounts stages)) = Some (stage_id (hd stages))"
proof -
  let ?Z = "zeroCounts stages"
  from hd_zeroCounts[OF ne np] obtain e es where z: "?Z = e # es" and e: "fst e = stage_id (hd stages)"
    by (cases ?Z) auto
  have "\<forall>p\<in>set ?Z. array_index (fst p) = None"
  proof
    fix p assume "p \<in> set ?Z"
    then have "fst p \<in> fst ` set ?Z" by (rule imageI)
    then have "fst p \<in> stage_id ` set stages" unfolding zeroCounts_keys by simp
    with noidx show "array_index (fst p) = None" by auto
  qed
  then have ent: "Object_entries ?Z = e # es"
    unfolding z[symmetric] by (rule Object_entries_no_index)
  have "\<forall>p\<in>set (e # es). snd p = 0"
    unfolding z[symmetric] using zeroCounts_zero by blast
  then have "foldl dominantStep e (e # es) = e"
    by (rule foldl_dominantStep_zero)
  with ent e show ?thesis by (simp add: getDominantStage_def)
qed

text \<open>
  Claim C10, as amended. Take a stage table that is not empty, none of whose ids is an
  array index, and whose first id is not \<^verbatim>\<open>__proto__\<close>. For every count object with the keys
  of the zero-initialised object and all counts zero, \<^verbatim>\<open>getDominantStage\<close> returns the id of
  the first stage, not \<^verbatim>\<open>null\<close>. So it does for the counts of a belt without bags, and the
  first stage gets the class \<^verbatim>\<open>active\<close> in the timeline. With the table of the constructor
  the id is \<^verbatim>\<open>checking\<close>.
\<close>

theorem getDominantStage_all_zero:
  assumes "getBeltStages this \<noteq> []"
    and "\<forall>s\<in>set (getBeltStages this). array_index (stage_id s) = None"
    and "stage_id (hd (getBeltStages this)) \<noteq> ''__proto__''"
  shows
  "(map fst counts = map fst (zeroCounts (getBeltStages this)) \<and> (\<forall>p\<in>set counts. snd p = 0)
      \<longrightarrow> getDominantStage (Some counts) = Some (stage_id (hd (getBeltStages this))))
   \<and> (bagCount belt = 0 \<longrightarrow>
        (\<exists>c. calculateStageCounts parse this belt = Inr c
           \<and> getDominantStage (Some c) = Some (stage_id (hd (getBeltStages this)))
           \<and> isActive (getDominantStage (Some c)) (hd (getBeltStages this)) = ''active''))
   \<and> getDominantStage (Some (zeroCounts (getBeltStages (AirportDashboard cfg)))) = Some ''checking''"
proof (intro conjI impI)
  assume "map fst counts = map fst (zeroCounts (getBeltStages this)) \<and> (\<forall>p\<in>set counts. snd p = 0)"
  then have "counts = zeroCounts (getBeltStages this)"
    using all_zero_is_zeroCounts by blast
  with getDominantStage_zeroCounts[OF assms]
  show "getDominantStage (Some counts) = Some (stage_id (hd (getBeltStages this)))" by simp
next
  assume "bagCount belt = 0"
  from calculateStageCounts_no_bags[OF this, of parse this] getDominantStage_zeroCounts[OF assms]
  show "\<exists>c. calculateStageCounts parse this belt = Inr c
           \<and> getDominantStage (Some c) = Some (stage_id (hd (getBeltStages this)))
           \<and> isActive (getDominantStage (Some c)) (hd (getBeltStages this)) = ''active''"
    by (simp add: isActive_def)
next
  show "getDominantStage (Some (zeroCounts (getBeltStages (AirportDashboard cfg)))) = Some ''checking''"
    by (simp add: zeroCounts_canonical getDominantStage_def Object_entries_def
        array_index_canonical dominantStep_def)
qed

theorem getDominantStage_all_zero_witness:
  "getDominantStage (Some [(''checking'', 0), (''sorting'', 0), (''security'', 0), (''boarding'', 0)])
     = Some ''checking''
   \<and> (\<exists>c. calculateStageCounts (\<lambda>v. NaN) (AirportDashboard JUndefined) JNull = Inr c
         \<and> getDominantStage (Some c) = Some ''checking''
         \<and> isActive (getDominantStage (Some c)) (hd canonicalStages) = ''active'')"
proof -
  let ?P = "\<lambda>v::jsval. NaN"
  let ?D = "AirportDashboard JUndefined"
  let ?Z = "[(''checking'', 0), (''sorting'', 0), (''security'', 0), (''boarding'', 0 :: nat)]"
  have ne: "getBeltStages ?D \<noteq> []"
    by (rule canonical_nonempty)
  have noidx: "\<forall>s\<in>set (getBeltStages ?D). array_index (stage_id s) = None"
    by (simp add: canonicalStages_def array_index_canonical)
  have np: "stage_id (hd (getBeltStages ?D)) \<noteq> ''__proto__''"
    by (simp add: canonicalStages_def)
  note zero = getDominantStage_all_zero [OF ne noidx np, of ?Z JNull ?P JUndefined]
  have stages: "getBeltStages ?D = canonicalStages"
    by simp
  have first: "stage_id (hd canonicalStages) = ''checking''"
    by (simp add: canonicalStages_def)
  have h1: "map fst ?Z = map fst (zeroCounts (getBeltStages ?D)) \<and> (\<forall>p\<in>set ?Z. snd p = 0)"
    by (simp add: zeroCounts_canonical)
  have h2: "bagCount JNull = 0"
    by (simp add: bagCount_def)
  from zero
  have "map fst ?Z = map fst (zeroCounts (getBeltStages ?D)) \<and> (\<forall>p\<in>set ?Z. snd p = 0)
        \<longrightarrow> getDominantStage (Some ?Z) = Some (stage_id (hd (getBeltStages ?D)))"
    by (rule conjunct1)
  from this h1 have "getDominantStage (Some ?Z) = Some (stage_id (hd (getBeltStages ?D)))"
    by (rule mp)
  then have one: "getDominantStage (Some ?Z) = Some ''checking''"
    unfolding stages first .
  from zero
  have "bagCount JNull = 0 \<longrightarrow>
        (\<exists>c. calculateStageCounts ?P ?D JNull = Inr c
          \<and> getDominantStage (Some c) = Some (stage_id (hd (getBeltStages ?D)))
          \<and> isActive (getDominantStage (Some c)) (hd (getBeltStages ?D)) = ''active'')"
    by (rule conjunct1[OF conjunct2])
  from this h2
  have "\<exists>c. calculateStageCounts ?P ?D JNull = Inr c
          \<and> getDominantStage (Some c) = Some (stage_id (hd (getBeltStages ?D)))
          \<and> isActive (getDominantStage (Some c)) (hd (getBeltStages ?D)) = ''active''"
    by (rule mp)
  then have two: "\<exists>c. calculateStageCounts ?P ?D JNull = Inr c
          \<and> getDominantStage (Some c) = Some ''checking''
          \<and> isActive (getDominantStage (Some c)) (hd canonicalStages) = ''active''"
    unfolding stages first .
  from one two show ?thesis by (rule conjI)
qed

lemma array_index_samples: "array_index ''1'' = Some 1" "array_index ''b'' = None"
  by (simp_all add: array_index_def is_digit_def decimal_value_def digit_value_def)

theorem getDominantStage_all_zero_not_first:
  "calculateStageCounts (\<lambda>v. NaN)
     \<lparr>beltStages =
        [\<lparr>stage_id = ''b'', stage_label = ''B'', stage_description = ''first'',
           stage_icon = ''i'', stage_start = Fin 0, stage_end = Fin 50\<rparr>,
         \<lparr>stage_id = ''1'', stage_label = ''One'', stage_description = ''second'',
           stage_icon = ''i'', stage_start = Fin 50, stage_end = Fin 100\<rparr>],
      alertScopes = [JStr ''all'']\<rparr>
     JNull
     = Inr [(''b'', 0), (''1'', 0)]
   \<and> getDominantStage (Some [(''b'', 0), (''1'', 0)]) = Some ''1''
   \<and> calculateStageCounts (\<lambda>v. NaN)
       \<lparr>beltStages =
          [\<lparr>stage_id = ''__proto__'', stage_label = ''P'', stage_description = ''only'',
             stage_icon = ''i'', stage_start = Fin 0, stage_end = Fin 100\<rparr>],
        alertScopes = [JStr ''all'']\<rparr>
       JNull
     = Inr []
   \<and> getDominantStage (Some []) = None"
  by (simp add: calculateStageCounts_def getBeltStages_def zeroCounts_def set_prop_def
      getDominantStage_def Object_entries_def array_index_samples dominantStep_def)

section \<open>Filtering alerts by scope\<close>

lemma list_ex_disj:
  "list_ex (\<lambda>x. P x \<or> Q x) xs \<longleftrightarrow> list_ex P xs \<or> list_ex Q xs"
  by (induction xs) auto

lemma keepAlert_visibleTo:
  assumes "alert \<noteq> JNull" and "alert \<noteq> JUndefined"
  shows "keepAlert this alert = Inr (visibleTo (alertScopes this) alert)"
proof -
  from assms obtain w where w: "get_prop alert ''scope'' = Inr w"
    by (cases alert) simp_all
  show ?thesis
  proof (cases w)
    case (JArr scopes)
    with w show ?thesis
      by (auto simp add: keepAlert_def visibleTo_def list_ex_disj)
  qed (simp_all add: w keepAlert_def visibleTo_def)
qed





lemma filterAlertsByScope_single:
  "filterAlertsByScope this (JArr [JObj ps]) =
     Inr (if visibleTo (alertScopes this) (JObj ps) then [JObj ps] else [])"
proof -
  have "keepAlert this (JObj ps) = Inr (visibleTo (alertScopes this) (JObj ps))"
    by (rule keepAlert_visibleTo) simp_all
  then show ?thesis by (simp add: filterAlertsByScope_def)
qed

text \<open>
  Claim C9, as amended. An alert whose \<^verbatim>\<open>scope\<close> is \<^verbatim>\<open>["terminalA"]\<close> is kept for a viewer
  whose allowed scopes are \<^verbatim>\<open>["terminalA"]\<close>, and discarded for a viewer whose allowed scopes
  are \<^verbatim>\<open>["terminalB"]\<close> and for one whose allowed scopes are \<^verbatim>\<open>["all"]\<close>: the filter looks for
  \<^verbatim>\<open>"all"\<close> among the scopes of the alert, not among those of the viewer. An alert with no
  \<^verbatim>\<open>scope\<close> field is kept for every viewer.
\<close>

theorem filterAlertsByScope_examples:
  "(map_of ps ''scope'' = Some (JArr [JStr ''terminalA'']) \<longrightarrow>
      filterAlertsByScope (AirportDashboard (JArr [JStr ''terminalA''])) (JArr [JObj ps])
        = Inr [JObj ps]
      \<and> filterAlertsByScope (AirportDashboard (JArr [JStr ''terminalB''])) (JArr [JObj ps])
        = Inr []
      \<and> filterAlertsByScope (AirportDashboard (JArr [JStr ''all''])) (JArr [JObj ps])
        = Inr []
      \<and> filterAlertsByScope (AirportDashboard JUndefined) (JArr [JObj ps])
        = Inr [])
   \<and> (map_of qs ''scope'' = None \<longrightarrow>
        filterAlertsByScope this (JArr [JObj qs]) = Inr [JObj qs])"
  by (simp add: filterAlertsByScope_single visibleTo_def includes_arr_def AirportDashboard_def)

theorem filterAlertsByScope_examples_witness:
  "filterAlertsByScope (AirportDashboard (JArr [JStr ''terminalA'']))
     (JArr [JObj [(''id'', JNum (Fin 1)), (''scope'', JArr [JStr ''terminalA''])]])
     = Inr [JObj [(''id'', JNum (Fin 1)), (''scope'', JArr [JStr ''terminalA''])]]
   \<and> filterAlertsByScope (AirportDashboard (JArr [JStr ''terminalB'']))
       (JArr [JObj [(''id'', JNum (Fin 1)), (''scope'', JArr [JStr ''terminalA''])]])
     = Inr []
   \<and> filterAlertsByScope (AirportDashboard (JArr [JStr ''terminalB'']))
       (JArr [JObj [(''id'', JNum (Fin 2))]])
     = Inr [JObj [(''id'', JNum (Fin 2))]]"
proof -
  let ?ps = "[(''id'', JNum (Fin 1)), (''scope'', JArr [JStr ''terminalA''])]"
  let ?qs = "[(''id'', JNum (Fin 2))]"
  note ex = filterAlertsByScope_examples
              [of ?ps ?qs "AirportDashboard (JArr [JStr ''terminalB''])"]
  have h1: "map_of ?ps ''scope'' = Some (JArr [JStr ''terminalA''])"
    by simp
  have h2: "map_of ?qs ''scope'' = None"
    by simp
  from ex h1 h2 show ?thesis
    by (simp only: simp_thms)
qed

theorem filterAlertsByScope_all_viewer_discards:
  "filterAlertsByScope (AirportDashboard (JArr [JStr ''all'']))
     (JArr [JObj [(''scope'', JArr [JStr ''terminalA''])]])
     = Inr []"
  by (simp add: filterAlertsByScope_single visibleTo_def includes_arr_def AirportDashboard_def)

end
